theory Spec2Isabelle
  imports Complex_Main "HOL-Library.Word" "HOL-Library.Product_Lexorder"
    "HOL-Library.List_Lexorder" "HOL-Library.Char_ord"
begin

section \<open>Training orchestration core of the visual mesh trainer\<close>

text \<open>
  A shallow embedding of \<^verbatim>\<open>training/training.py\<close>. Scalar tensors are modelled as
  real numbers (exact arithmetic; the rounding of 32-bit floats is not modelled), rank-1
  tensors as lists of reals, Python dictionaries whose iteration order matters as
  association lists, and every exception the code can raise as a value of \<open>py_error\<close>.
\<close>

datatype py_error =
    IndexError
  | KeyError string
  | NameError string
  | TypeError
  | ValueError
  | ZeroDivisionError

text \<open>Running the next step on the value of a step that did not raise.\<close>

definition and_then :: "'err + 'x \<Rightarrow> ('x \<Rightarrow> 'err + 'y) \<Rightarrow> 'err + 'y" where
  "and_then r f = (case r of Inl e \<Rightarrow> Inl e | Inr v \<Rightarrow> f v)"

subsection \<open>Tensor primitives used by the graph\<close>

text \<open>\<^verbatim>\<open>tf.add_n\<close> adds a list of tensors and rejects the empty list.\<close>

definition add_n :: "'a::comm_monoid_add list \<Rightarrow> py_error + 'a" where
  "add_n xs = (if xs = [] then Inl ValueError else Inr (sum_list xs))"


text \<open>
  A scalar whose computation can leave the finite numbers: a quotient with divisor zero
  and the mean of no elements are \<^verbatim>\<open>inf\<close> or \<^verbatim>\<open>nan\<close> in float arithmetic, and
  both compare unequal to zero. \<open>NonFinite\<close> stands for any of them; it absorbs
  addition, multiplication and division.
\<close>

datatype scalar = NonFinite | Fin real

instantiation scalar :: comm_monoid_add
begin

definition zero_scalar :: scalar where
  "zero_scalar = Fin 0"

fun plus_scalar :: "scalar \<Rightarrow> scalar \<Rightarrow> scalar" where
  "plus_scalar (Fin a) (Fin b) = Fin (a + b)"
| "plus_scalar _ _ = NonFinite"

instance
proof
  fix u v w :: scalar
  show "0 + u = u"
    unfolding zero_scalar_def by (cases u; simp)
  show "u + v = v + u"
    by (cases u; cases v; simp)
  show "u + v + w = u + (v + w)"
    by (cases u; cases v; cases w; simp)
qed

end

fun fmul :: "scalar \<Rightarrow> scalar \<Rightarrow> scalar" where
  "fmul (Fin a) (Fin b) = Fin (a * b)"
| "fmul _ _ = NonFinite"

fun fdiv :: "scalar \<Rightarrow> scalar \<Rightarrow> scalar" where
  "fdiv (Fin a) (Fin b) = (if b = 0 then NonFinite else Fin (a / b))"
| "fdiv _ _ = NonFinite"

text \<open>\<^verbatim>\<open>tf.count_nonzero\<close> of a scalar and of a rank-1 tensor.\<close>

fun nonzero :: "scalar \<Rightarrow> bool" where
  "nonzero NonFinite = True"
| "nonzero (Fin a) = (a \<noteq> 0)"

definition count_nonzero :: "scalar list \<Rightarrow> nat" where
  "count_nonzero xs = length (filter nonzero xs)"

text \<open>\<^verbatim>\<open>tf.reduce_mean\<close> of a rank-1 tensor: not a number when there is no element.\<close>

definition reduce_mean :: "real list \<Rightarrow> scalar" where
  "reduce_mean xs = fdiv (Fin (sum_list xs)) (Fin (real (length xs)))"

text \<open>\<^verbatim>\<open>tf.nn.softmax\<close> and \<^verbatim>\<open>tf.nn.softmax_cross_entropy_with_logits_v2\<close> on one row.\<close>

definition softmax :: "real list \<Rightarrow> real list" where
  "softmax xs = map (\<lambda>x. exp x / sum_list (map exp xs)) xs"

definition softmax_cross_entropy :: "real list \<Rightarrow> real list \<Rightarrow> real" where
  "softmax_cross_entropy logits labels =
     - sum_list (map2 (\<lambda>y x. y * (x - ln (sum_list (map exp logits)))) labels logits)"

text \<open>\<^verbatim>\<open>tf.argmax\<close> on one row: the first position of the largest element.\<close>

fun argmax_from :: "nat \<Rightarrow> nat \<Rightarrow> real \<Rightarrow> real list \<Rightarrow> nat" where
  "argmax_from i best b [] = best"
| "argmax_from i best b (x # xs) =
     (if b < x then argmax_from (Suc i) i x xs else argmax_from (Suc i) best b xs)"

definition argmax :: "real list \<Rightarrow> nat" where
  "argmax xs = (case xs of [] \<Rightarrow> 0 | x # ys \<Rightarrow> argmax_from 1 0 x ys)"

text \<open>
  \<^verbatim>\<open>tf.where(Y[:, i])\<close>: the points whose label for class \<open>i\<close> is not zero, in order.
  The iterator fixes the second dimension of \<^verbatim>\<open>Y\<close> to the number of classes, so
  column \<open>i\<close> exists in every row.
\<close>

definition where_class :: "real list list \<Rightarrow> nat \<Rightarrow> nat list" where
  "where_class Y i = filter (\<lambda>p. Y ! p ! i \<noteq> 0) [0..<length Y]"

text \<open>\<^verbatim>\<open>tf.gather_nd(T, idx)\<close> on a rank-1 tensor.\<close>

definition gather_nd :: "'a list \<Rightarrow> nat list \<Rightarrow> 'a list" where
  "gather_nd T idx = map (\<lambda>p. T ! p) idx"

subsection \<open>Configuration\<close>

text \<open>
  The entries of the configuration that the core reads: \<^verbatim>\<open>network.classes\<close> (name and
  colour of each class), \<^verbatim>\<open>training.tutor.threshold\<close>,
  \<^verbatim>\<open>training.tutor.base_weight\<close>, \<^verbatim>\<open>training.validation.frequency\<close> and
  \<^verbatim>\<open>training.save_frequency\<close>.
\<close>

record config =
  classes :: "(string \<times> (int \<times> int \<times> int)) list"
  threshold :: real
  base_weight :: real
  validation_frequency :: int
  save_frequency :: int

subsection \<open>Metrics engine: \<^verbatim>\<open>_metrics\<close>\<close>

record metric =
  loss :: scalar
  tp :: real
  tn :: real
  fp :: real
  fn :: real

text \<open>\<^verbatim>\<open>d[k] = v\<close> on a dictionary kept in insertion order.\<close>

fun dict_set :: "('k \<times> 'v) list \<Rightarrow> 'k \<Rightarrow> 'v \<Rightarrow> ('k \<times> 'v) list" where
  "dict_set [] k v = [(k, v)]"
| "dict_set ((k', v') # kvs) k v =
     (if k' = k then (k, v) # kvs else (k', v') # dict_set kvs k v)"

text \<open>The number of points at which an integer tensor is not zero.\<close>

definition count_nonzero_int :: "int list \<Rightarrow> real" where
  "count_nonzero_int xs = real (length (filter (\<lambda>x. x \<noteq> 0) xs))"

text \<open>The body of the loop over the classes: the entry of class \<open>i\<close>.\<close>

definition class_metric :: "real list list \<Rightarrow> real list list \<Rightarrow> nat \<Rightarrow> metric" where
  "class_metric X Y i =
     (let network_loss = map2 softmax_cross_entropy X Y;
          predictions = map (\<lambda>x. if argmax (softmax x) = i then 1 else 0 :: int) X;
          labels = map (\<lambda>y. if argmax y = i then 1 else 0 :: int) Y
      in \<lparr>loss = reduce_mean (gather_nd network_loss (where_class Y i)),
          tp = count_nonzero_int (map2 (\<lambda>p l. p * l) predictions labels),
          tn = count_nonzero_int (map2 (\<lambda>p l. (p - 1) * (l - 1)) predictions labels),
          fp = count_nonzero_int (map2 (\<lambda>p l. p * (l - 1)) predictions labels),
          fn = count_nonzero_int (map2 (\<lambda>p l. (p - 1) * l) predictions labels)\<rparr>)"

text \<open>The dictionary after the loop: one entry per class name, in the order of the classes.\<close>

fun class_metrics ::
  "real list list \<Rightarrow> real list list \<Rightarrow> (nat \<times> string) list \<Rightarrow>
   (string \<times> metric) list \<Rightarrow> (string \<times> metric) list" where
  "class_metrics X Y [] metrics = metrics"
| "class_metrics X Y ((i, c) # ics) metrics =
     class_metrics X Y ics (dict_set metrics c (class_metric X Y i))"

text \<open>
  The \<^verbatim>\<open>'Global'\<close> entry, computed from the dictionary as it is before the entry is
  stored. \<^verbatim>\<open>class_losses\<close> holds \<^verbatim>\<open>tf.count_nonzero(m['loss'])\<close> of every entry, and
  the quotient of the two integer tensors is a float division.
\<close>

definition global_metric :: "(string \<times> metric) list \<Rightarrow> py_error + metric" where
  "global_metric metrics =
     (let class_losses = map (\<lambda>(k, m). if nonzero (loss m) then 1 else 0 :: nat) metrics;
          active_classes = length (filter (\<lambda>l. l \<noteq> 0) class_losses)
      in if metrics = [] then Inl ValueError
         else Inr \<lparr>loss = fdiv (Fin (real (sum_list class_losses))) (Fin (real active_classes)),
                   tp = sum_list (map (\<lambda>(k, m). tp m) metrics),
                   tn = sum_list (map (\<lambda>(k, m). tn m) metrics),
                   fp = sum_list (map (\<lambda>(k, m). fp m) metrics),
                   fn = sum_list (map (\<lambda>(k, m). fn m) metrics)\<rparr>)"

definition metrics ::
  "real list list \<Rightarrow> real list list \<Rightarrow> config \<Rightarrow> py_error + (string \<times> metric) list" where
  "metrics X Y cfg =
     (let per_class = class_metrics X Y (enumerate 0 (map fst (classes cfg))) []
      in case global_metric per_class of
           Inl e \<Rightarrow> Inl e
         | Inr g \<Rightarrow> Inr (dict_set per_class ''Global'' g))"

subsection \<open>Loss engine: \<^verbatim>\<open>_loss\<close>\<close>

text \<open>
  \<^verbatim>\<open>tf.losses.mean_squared_error\<close> with its default reduction: the sum of the squared
  differences over the number of elements, and zero when there is no element.
\<close>

definition mean_squared_error :: "real list \<Rightarrow> real list \<Rightarrow> real" where
  "mean_squared_error labels predictions =
     (if predictions = [] then 0
      else sum_list (map2 (\<lambda>p l. (p - l)\<^sup>2) predictions labels) / real (length predictions))"

definition tutor_labels :: "real list list \<Rightarrow> real list list \<Rightarrow> real list" where
  "tutor_labels X Y =
     map2 (\<lambda>y x. sum_list (map2 (\<lambda>a b. (a - b)\<^sup>2) y (softmax x)) / 2) Y X"

definition tutor_idx :: "real list \<Rightarrow> real list \<Rightarrow> real \<Rightarrow> nat list" where
  "tutor_idx labels T thr =
     filter (\<lambda>p. \<bar>labels ! p - T ! p\<bar> > thr) [0..<min (length labels) (length T)]"

text \<open>The value of a stopped gradient is the value of its argument.\<close>

definition tutor_loss :: "real list \<Rightarrow> real list \<Rightarrow> real \<Rightarrow> real" where
  "tutor_loss labels T thr =
     (let idx = tutor_idx labels T thr;
          tutor_loss_cut = mean_squared_error (gather_nd labels idx) (gather_nd T idx);
          tutor_loss_full = mean_squared_error labels T
      in if length idx = 0 then tutor_loss_full else tutor_loss_cut)"

text \<open>
  \<^verbatim>\<open>tf.scatter_nd(idx, pts, shape)\<close> on a rank-1 tensor: zeros, with every update
  added at its index.
\<close>

fun scatter_nd :: "nat list \<Rightarrow> scalar list \<Rightarrow> nat \<Rightarrow> scalar list" where
  "scatter_nd (p # idx) (v # pts) n = (let r = scatter_nd idx pts n in r[p := r ! p + v])"
| "scatter_nd _ _ n = replicate n 0"

text \<open>The body of the loop over the classes: the weights of class \<open>i\<close>.\<close>

definition class_scatter :: "real list \<Rightarrow> real list list \<Rightarrow> real \<Rightarrow> nat \<Rightarrow> scalar list" where
  "class_scatter T Y bw i =
     (let idx = where_class Y i;
          pts = map (\<lambda>t. t + bw) (gather_nd T idx);
          pts' = map (\<lambda>v. fdiv (Fin v) (Fin (sum_list pts))) pts;
          pts'' = scatter_nd idx pts' (length T)
      in if length idx = 0 then replicate (length T) 0 else pts'')"

definition scatters :: "real list \<Rightarrow> real list list \<Rightarrow> config \<Rightarrow> scalar list list" where
  "scatters T Y cfg = map (class_scatter T Y (base_weight cfg)) [0..<length (classes cfg)]"

definition active_classes :: "scalar list list \<Rightarrow> nat" where
  "active_classes ss = length (filter (\<lambda>s. count_nonzero s \<noteq> 0) ss)"

text \<open>\<^verbatim>\<open>tf.add_n\<close> of rank-1 tensors of one length \<open>n\<close>.\<close>

definition add_n_vec :: "nat \<Rightarrow> scalar list list \<Rightarrow> py_error + scalar list" where
  "add_n_vec n ss =
     (if ss = [] then Inl ValueError
      else Inr (map (\<lambda>p. sum_list (map (\<lambda>s. s ! p) ss)) [0..<n]))"

definition loss_weights :: "real list \<Rightarrow> real list list \<Rightarrow> config \<Rightarrow> py_error + scalar list" where
  "loss_weights T Y cfg =
     (let ss = scatters T Y cfg
      in case add_n_vec (length T) ss of
           Inl e \<Rightarrow> Inl e
         | Inr W \<Rightarrow> Inr (map (\<lambda>w. fdiv w (Fin (real (active_classes ss)))) W))"

definition loss_fun ::
  "real list list \<Rightarrow> real list \<Rightarrow> real list list \<Rightarrow> config \<Rightarrow>
   py_error + (scalar \<times> scalar \<times> real)" where
  "loss_fun X T Y cfg =
     (let unweighted_mesh_loss = map2 softmax_cross_entropy X Y
      in case loss_weights T Y cfg of
           Inl e \<Rightarrow> Inl e
         | Inr W \<Rightarrow>
             Inr (reduce_mean unweighted_mesh_loss,
                  sum_list (map2 (\<lambda>l w. fmul (Fin l) w) unweighted_mesh_loss W),
                  tutor_loss (tutor_labels X Y) T (threshold cfg)))"

subsection \<open>Device op bundles\<close>

record loss_ops =
  u_loss :: scalar
  x_loss :: scalar
  t_loss :: scalar

text \<open>
  A gradient entry is the pair \<^verbatim>\<open>(gradient, variable)\<close> that \<^verbatim>\<open>compute_gradients\<close>
  returns; the gradient is \<^verbatim>\<open>None\<close> when the loss does not depend on the variable.
\<close>

type_synonym grad_entry = "real option \<times> string"

record grad_ops =
  x_grads :: "grad_entry list"
  t_grads :: "grad_entry list"

text \<open>
  The entries \<^verbatim>\<open>'data'\<close>, \<^verbatim>\<open>'X'\<close> and \<^verbatim>\<open>'T'\<close> hold one value in the bundle of a
  device and a list of values, one per device, in a merged bundle.
\<close>

datatype 'a per_device = Direct 'a | Listed "'a per_device list"

record ('d, 'x, 't) device_ops =
  op_data :: "'d per_device"
  op_X :: "'x per_device"
  op_T :: "'t per_device"
  op_loss :: loss_ops
  op_grads :: grad_ops
  op_metrics :: "(string \<times> metric) list"

subsection \<open>Multi-device merger: \<^verbatim>\<open>_merge_ops\<close>\<close>

text \<open>
  Python's \<^verbatim>\<open>zip(*xss)\<close>: the tuples of elements at the same position, until the
  shortest list is exhausted; no tuple at all when there is no list.
\<close>

function zip_star :: "'a list list \<Rightarrow> 'a list list" where
  "zip_star xss =
     (if xss = [] \<or> (\<exists>xs \<in> set xss. xs = []) then []
      else map hd xss # zip_star (map tl xss))"
  by pat_completeness auto
termination
  by (relation "measure (\<lambda>xss. length (hd xss))") (auto simp: hd_map neq_Nil_conv)

declare zip_star.simps [simp del]

text \<open>\<^verbatim>\<open>v[0]\<close> of a gradient entry that passed the \<^verbatim>\<open>is None\<close> test.\<close>

fun grad_value :: "grad_entry \<Rightarrow> real" where
  "grad_value (Some g, _) = g"
| "grad_value (None, _) = 0"

text \<open>
  One round of the gradient loop: the tuple \<^verbatim>\<open>grads\<close> of same-position entries
  contributes the averaged gradient with the variable of the first device, or nothing
  when any device has \<^verbatim>\<open>None\<close>.
\<close>

definition merge_grad_tuple :: "nat \<Rightarrow> grad_entry list \<Rightarrow> grad_entry list" where
  "merge_grad_tuple n grads =
     (if \<not> list_ex (\<lambda>v. fst v = None) grads
      then [(Some (sum_list (map grad_value grads) / real n), snd (hd grads))]
      else [])"

definition merge_grads :: "grad_entry list list \<Rightarrow> grad_entry list" where
  "merge_grads gss = concat (map (merge_grad_tuple (length gss)) (zip_star gss))"

text \<open>
  \<^verbatim>\<open>_merge_metrics\<close>: the keys of the first device, each one looked up on every device
  (a missing key raises), the five leaves added up.
\<close>

definition lookup_metric :: "(string \<times> metric) list \<Rightarrow> string \<Rightarrow> py_error + metric" where
  "lookup_metric m k = (case map_of m k of None \<Rightarrow> Inl (KeyError k) | Some v \<Rightarrow> Inr v)"

fun sequence_sum :: "('e + 'a) list \<Rightarrow> 'e + 'a list" where
  "sequence_sum [] = Inr []"
| "sequence_sum (r # rs) =
     (case r of
        Inl e \<Rightarrow> Inl e
      | Inr v \<Rightarrow> (case sequence_sum rs of Inl e \<Rightarrow> Inl e | Inr vs \<Rightarrow> Inr (v # vs)))"

definition sum_metrics :: "metric list \<Rightarrow> metric" where
  "sum_metrics ms =
     \<lparr>loss = sum_list (map loss ms), tp = sum_list (map tp ms), tn = sum_list (map tn ms),
      fp = sum_list (map fp ms), fn = sum_list (map fn ms)\<rparr>"

definition merge_metrics_key ::
  "(string \<times> metric) list list \<Rightarrow> string \<Rightarrow> py_error + (string \<times> metric)" where
  "merge_metrics_key mss k =
     (case sequence_sum (map (\<lambda>m. lookup_metric m k) mss) of
        Inl e \<Rightarrow> Inl e
      | Inr ms \<Rightarrow> Inr (k, sum_metrics ms))"

definition merge_metrics ::
  "(string \<times> metric) list list \<Rightarrow> py_error + (string \<times> metric) list" where
  "merge_metrics mss =
     (case mss of
        [] \<Rightarrow> Inl IndexError
      | m0 # _ \<Rightarrow> sequence_sum (map (merge_metrics_key mss) (map fst m0)))"

definition merge_ops ::
  "('d, 'x, 't) device_ops list \<Rightarrow> py_error + ('d, 'x, 't) device_ops" where
  "merge_ops device_ops =
     and_then (add_n (map (\<lambda>op. u_loss (op_loss op)) device_ops)) (\<lambda>us.
     and_then (add_n (map (\<lambda>op. x_loss (op_loss op)) device_ops)) (\<lambda>xs.
     and_then (add_n (map (\<lambda>op. t_loss (op_loss op)) device_ops)) (\<lambda>ts.
     and_then (merge_metrics (map op_metrics device_ops)) (\<lambda>ms.
       Inr \<lparr>op_data = Listed (map op_data device_ops),
            op_X = Listed (map op_X device_ops),
            op_T = Listed (map op_T device_ops),
            op_loss =
              \<lparr>u_loss = fdiv us (Fin (real (length device_ops))),
               x_loss = fdiv xs (Fin (real (length device_ops))),
               t_loss = fdiv ts (Fin (real (length device_ops)))\<rparr>,
            op_grads =
              \<lparr>x_grads = merge_grads (map (\<lambda>op. x_grads (op_grads op)) device_ops),
               t_grads = merge_grads (map (\<lambda>op. t_grads (op_grads op)) device_ops)\<rparr>,
            op_metrics =
              map (\<lambda>(k, m). (k, m\<lparr>loss := fdiv (loss m) (Fin (real (length device_ops)))\<rparr>))
                ms\<rparr>))))"

text \<open>
  The merge stage of \<^verbatim>\<open>_build_training_graph\<close>:
  \<^verbatim>\<open>_merge_ops(device_ops) if len(device_ops) > 1 else device_ops[0]\<close>.
\<close>

definition merge_stage ::
  "('d, 'x, 't) device_ops list \<Rightarrow> py_error + ('d, 'x, 't) device_ops" where
  "merge_stage device_ops =
     (if length device_ops > 1 then merge_ops device_ops
      else (case device_ops of [] \<Rightarrow> Inl IndexError | b # _ \<Rightarrow> Inr b))"

subsection \<open>Model exporter: \<^verbatim>\<open>save_yaml_model\<close>\<close>

text \<open>
  The match of \<^verbatim>\<open>Network/Conv_(\d+)/Layer_(\d+)/(Weights|Biases):0\<close> at the start of
  a variable name, with the three groups as \<^verbatim>\<open>int(group(1))\<close>, \<^verbatim>\<open>int(group(2))\<close> and
  \<^verbatim>\<open>group(3).lower()\<close>.
\<close>

definition is_digit :: "char \<Rightarrow> bool" where
  "is_digit ch = (ch \<in> set ''0123456789'')"

definition int_of_digits :: "string \<Rightarrow> nat" where
  "int_of_digits ds = foldl (\<lambda>n ch. 10 * n + (of_char ch - of_char CHR ''0'')) 0 ds"

definition strip_prefix :: "string \<Rightarrow> string \<Rightarrow> string option" where
  "strip_prefix pre s = (if take (length pre) s = pre then Some (drop (length pre) s) else None)"

definition match_role :: "string \<Rightarrow> string option" where
  "match_role s =
     (if strip_prefix ''Weights:0'' s \<noteq> None then Some ''weights''
      else if strip_prefix ''Biases:0'' s \<noteq> None then Some ''biases''
      else None)"

definition match_name :: "string \<Rightarrow> (nat \<times> nat \<times> string) option" where
  "match_name k =
     (case strip_prefix ''Network/Conv_'' k of
        None \<Rightarrow> None
      | Some r1 \<Rightarrow>
          (case strip_prefix ''/Layer_'' (dropWhile is_digit r1) of
             None \<Rightarrow> None
           | Some r2 \<Rightarrow>
               (case strip_prefix ''/'' (dropWhile is_digit r2) of
                  None \<Rightarrow> None
                | Some r3 \<Rightarrow>
                    (case match_role r3 of
                       None \<Rightarrow> None
                     | Some var \<Rightarrow>
                         if takeWhile is_digit r1 = [] \<or> takeWhile is_digit r2 = [] then None
                         else Some (int_of_digits (takeWhile is_digit r1),
                                    int_of_digits (takeWhile is_digit r2), var)))))"

text \<open>The list \<^verbatim>\<open>items\<close>: the variables whose name matches, keyed by the three groups.\<close>

definition items_of :: "(string \<times> 'v) list \<Rightarrow> ((nat \<times> nat \<times> string) \<times> 'v) list" where
  "items_of variables =
     List.map_filter (\<lambda>(k, v). map_option (\<lambda>info. (info, v)) (match_name k)) variables"

text \<open>
  Python's \<^verbatim>\<open>xs[i]\<close>: the position that an index denotes, counting from the end when
  it is negative, and an error outside the list.
\<close>

definition py_index :: "'a list \<Rightarrow> int \<Rightarrow> py_error + nat" where
  "py_index xs i =
     (let n = int (length xs); j = (if i < 0 then n + i else i)
      in if 0 \<le> j \<and> j < n then Inr (nat j) else Inl IndexError)"

text \<open>
  The state of the loop: \<^verbatim>\<open>output\<close>, a list per convolution of a dictionary per
  layer, and the counters \<^verbatim>\<open>conv\<close> and \<^verbatim>\<open>layer\<close>.
\<close>

type_synonym 'v export_state = "(string \<times> 'v) list list list \<times> int \<times> int"

definition export_step ::
  "'v export_state \<Rightarrow> (nat \<times> nat \<times> string) \<times> 'v \<Rightarrow> py_error + 'v export_state" where
  "export_step st item =
     (case (st, item) of ((output, conv, layer), ((c, l, var), v)) \<Rightarrow>
        let (output1, conv1, layer1) =
              (if int c \<noteq> conv then (output @ [[]], int c, - 1) else (output, conv, layer))
        in and_then
             (if int l \<noteq> layer1
              then and_then (py_index output1 (- 1))
                     (\<lambda>a. Inr (output1[a := output1 ! a @ [[]]], int l))
              else Inr (output1, layer1))
             (\<lambda>(output2, layer2).
                and_then (py_index output2 conv1) (\<lambda>a.
                and_then (py_index (output2 ! a) layer2) (\<lambda>b.
                  Inr (output2[a := (output2 ! a)[b := dict_set (output2 ! a ! b) var v]],
                       conv1, layer2)))))"

fun export_loop ::
  "'v export_state \<Rightarrow> ((nat \<times> nat \<times> string) \<times> 'v) list \<Rightarrow> py_error + 'v export_state" where
  "export_loop st [] = Inr st"
| "export_loop st (item # items) = and_then (export_step st item) (\<lambda>st'. export_loop st' items)"

text \<open>
  The structure that \<^verbatim>\<open>save_yaml_model\<close> dumps. \<^verbatim>\<open>sorted(items)\<close> orders the items
  by their keys; keys are compared as Python compares tuples of two integers and a
  string.
\<close>

definition save_yaml_model ::
  "(string \<times> 'v) list \<Rightarrow> py_error + (string \<times> 'v) list list list" where
  "save_yaml_model variables =
     and_then (export_loop ([], - 1, - 1) (sort_key fst (items_of variables)))
       (\<lambda>(output, conv, layer). Inr output)"

subsection \<open>Training loop driver: \<^verbatim>\<open>train\<close>\<close>

text \<open>
  The session: the values of the trainable variables, the \<^verbatim>\<open>int32\<close> variable
  \<^verbatim>\<open>global_step\<close>, and the log of what the session has done so far.
\<close>

datatype optimiser = NetworkOptimiser | TutorOptimiser

datatype event =
    Applied optimiser
  | TrainingSummary int
  | ValidationSummary int
  | ImageSummary int
  | CheckpointSaved int
  | ModelExported int

record 'v session =
  trainable :: "(string \<times> 'v) list"
  global_step :: "32 word"
  log :: "event list"

text \<open>
  \<^verbatim>\<open>optimiser.apply_gradients(grads, global_step=...)\<close>: the optimiser updates the
  variables (\<open>upd\<close> stands for its update rule) and increments the global step
  when it is given one.
\<close>

definition apply_gradients ::
  "(optimiser \<Rightarrow> (string \<times> 'v) list \<Rightarrow> (string \<times> 'v) list) \<Rightarrow> optimiser \<Rightarrow> bool \<Rightarrow>
   'v session \<Rightarrow> 'v session" where
  "apply_gradients upd opt with_global_step sess =
     sess\<lparr>trainable := upd opt (trainable sess),
          global_step := (if with_global_step then global_step sess + 1 else global_step sess),
          log := log sess @ [Applied opt]\<rparr>"

text \<open>
  Running \<^verbatim>\<open>ops['train']\<close>: the two operations that \<^verbatim>\<open>_build_training_graph\<close>
  builds, \<^verbatim>\<open>network_optimiser.apply_gradients(..., global_step=global_step)\<close> and
  \<^verbatim>\<open>tutor_optimiser.apply_gradients(...)\<close>.
\<close>

definition run_train ::
  "(optimiser \<Rightarrow> (string \<times> 'v) list \<Rightarrow> (string \<times> 'v) list) \<Rightarrow> 'v session \<Rightarrow> 'v session" where
  "run_train upd sess =
     apply_gradients upd TutorOptimiser False (apply_gradients upd NetworkOptimiser True sess)"

text \<open>\<^verbatim>\<open>tf.train.global_step(sess, global_step)\<close>: the value of the variable as an integer.\<close>

definition step_of :: "'v session \<Rightarrow> int" where
  "step_of sess = sint (global_step sess)"

definition emit :: "event list \<Rightarrow> 'v session \<Rightarrow> 'v session" where
  "emit es sess = sess\<lparr>log := log sess @ es\<rparr>"




text \<open>
  Saving the model: the checkpoint, then \<^verbatim>\<open>save_yaml_model\<close>, whose indexing can
  raise.
\<close>

definition save_model :: "'v session \<Rightarrow> py_error + 'v session" where
  "save_model sess =
     and_then (save_yaml_model (trainable sess))
       (\<lambda>output. Inr (emit [CheckpointSaved (step_of sess), ModelExported (step_of sess)] sess))"

text \<open>
  The body of the \<^verbatim>\<open>try\<close> block when the training iterator still has a batch. The
  remainders \<^verbatim>\<open>% config.training.validation.frequency\<close> and
  \<^verbatim>\<open>% config.training.save_frequency\<close> are Python's and raise on a zero divisor.
\<close>

definition loop_body ::
  "config \<Rightarrow> (optimiser \<Rightarrow> (string \<times> 'v) list \<Rightarrow> (string \<times> 'v) list) \<Rightarrow> 'v session \<Rightarrow>
   py_error + 'v session" where
  "loop_body cfg upd sess =
     (let s1 = run_train upd sess;
          s2 = emit [TrainingSummary (step_of s1)] s1
      in if validation_frequency cfg = 0 then Inl ZeroDivisionError
         else
           let s3 = (if step_of s2 mod validation_frequency cfg = 0
                     then emit [ValidationSummary (step_of s2)] s2 else s2)
           in if save_frequency cfg = 0 then Inl ZeroDivisionError
              else if step_of s3 mod save_frequency cfg = 0 then save_model s3
              else Inr s3)"

text \<open>
  The names that are bound where the \<^verbatim>\<open>except\<close> block runs: the module's imports and
  functions, and the local variables of \<^verbatim>\<open>train\<close> assigned before the loop.
\<close>

definition train_scope :: "string list" where
  "train_scope =
     [''os'', ''sys'', ''random'', ''tf'', ''device_lib'', ''copy'', ''yaml'', ''re'', ''io'',
      ''cv2'', ''time'', ''np'', ''mpl'', ''plt'', ''network'', ''dataset'',
      ''save_yaml_model'', ''MeshDrawer'', ''_device_graph'', ''_loss'', ''_metrics'',
      ''_merge_ops'', ''_build_training_graph'', ''train'',
      ''config'', ''output_path'', ''gpus'', ''ops'', ''global_step'', ''summary_writer'',
      ''save_vars'', ''saver'', ''training_dataset'', ''training_ds_stats'',
      ''validation_dataset'', ''image_dataset'', ''tf_config'', ''sess'', ''model_path'',
      ''checkpoint_file'', ''training_handle'', ''validation_handle'', ''image_handle'',
      ''start'', ''output'', ''end'']"

definition name_lookup :: "string \<Rightarrow> py_error + unit" where
  "name_lookup n = (if n \<in> set train_scope then Inr () else Inl (NameError n))"

text \<open>
  The \<^verbatim>\<open>except tf.errors.OutOfRangeError\<close> block, statement by statement, each name
  looked up in the order in which Python evaluates it.
\<close>

definition wind_down :: "'v session \<Rightarrow> py_error + 'v session" where
  "wind_down sess =
     and_then (name_lookup ''sess'') (\<lambda>_.
     and_then (name_lookup ''validation_summary'') (\<lambda>_.
     and_then (name_lookup ''net'') (\<lambda>_.
     and_then (name_lookup ''validation_handle'') (\<lambda>_.
     and_then (name_lookup ''summary_writer'') (\<lambda>_.
     and_then (Inr (emit [ValidationSummary (step_of sess)] sess)) (\<lambda>s1.
     and_then (name_lookup ''image_summary'') (\<lambda>_.
     and_then (name_lookup ''image_handle'') (\<lambda>_.
     and_then (Inr (emit [ImageSummary (step_of s1)] s1)) (\<lambda>s2.
     and_then (name_lookup ''saver'') (\<lambda>_.
     and_then (name_lookup ''save_yaml_model'') (\<lambda>_.
       save_model s2)))))))))))"

text \<open>
  The loop \<^verbatim>\<open>while True\<close>, for a training iterator that yields \<open>n\<close> more batches
  and then raises \<^verbatim>\<open>OutOfRangeError\<close>, which the \<^verbatim>\<open>except\<close> block handles before
  the \<^verbatim>\<open>break\<close>.
\<close>

fun train_loop ::
  "config \<Rightarrow> (optimiser \<Rightarrow> (string \<times> 'v) list \<Rightarrow> (string \<times> 'v) list) \<Rightarrow> nat \<Rightarrow> 'v session \<Rightarrow>
   py_error + 'v session" where
  "train_loop cfg upd 0 sess = wind_down sess"
| "train_loop cfg upd (Suc n) sess =
     and_then (loop_body cfg upd sess) (train_loop cfg upd n)"


subsection \<open>Structure specs of the training graph builder\<close>

text \<open>
  A structure spec is a Python list of stages, each stage a list of layer widths. Lists
  are mutable objects, so the model keeps them in a store: a structure holds the
  addresses of its stages, and \<open>next_free\<close> is the first address never allocated.
\<close>

type_synonym addr = nat

datatype obj = Stage "int list" | Structure "addr list"

record heap =
  cells :: "addr \<Rightarrow> obj option"
  next_free :: addr

definition alloc :: "obj \<Rightarrow> heap \<Rightarrow> addr \<times> heap" where
  "alloc v h = (next_free h, h\<lparr>cells := (cells h)(next_free h \<mapsto> v), next_free := Suc (next_free h)\<rparr>)"

text \<open>
  \<^verbatim>\<open>copy.deepcopy\<close> of a structure: a new list, entered in the memo before its
  elements are copied, then a copy of every stage, one per stage object (a stage met
  again is taken from the memo). The widths are integers and are not copied. Objects of
  another shape than a list of lists of integers are outside the model (\<open>TypeError\<close>).
\<close>

fun copy_stages ::
  "heap \<Rightarrow> (addr \<times> addr) list \<Rightarrow> addr list \<Rightarrow> py_error + (heap \<times> (addr \<times> addr) list \<times> addr list)" where
  "copy_stages h memo [] = Inr (h, memo, [])"
| "copy_stages h memo (r # rs) =
     (case map_of memo r of
        Some r' \<Rightarrow>
          and_then (copy_stages h memo rs) (\<lambda>(h', memo', rs'). Inr (h', memo', r' # rs'))
      | None \<Rightarrow>
          (case cells h r of
             Some (Stage xs) \<Rightarrow>
               (case alloc (Stage xs) h of
                  (r', h1) \<Rightarrow>
                    and_then (copy_stages h1 ((r, r') # memo) rs)
                      (\<lambda>(h', memo', rs'). Inr (h', memo', r' # rs')))
           | _ \<Rightarrow> Inl TypeError))"

definition deepcopy :: "heap \<Rightarrow> addr \<Rightarrow> py_error + (addr \<times> heap)" where
  "deepcopy h a =
     (case cells h a of
        Some (Structure refs) \<Rightarrow>
          (case alloc (Structure []) h of
             (a', h1) \<Rightarrow>
               and_then (copy_stages h1 [(a, a')] refs)
                 (\<lambda>(h2, memo, refs'). Inr (a', h2\<lparr>cells := (cells h2)(a' \<mapsto> Structure refs')\<rparr>)))
      | _ \<Rightarrow> Inl TypeError)"

text \<open>\<^verbatim>\<open>structure[-1].append(n)\<close>: the last stage object gets one more width.\<close>

definition append_last :: "heap \<Rightarrow> addr \<Rightarrow> int \<Rightarrow> py_error + heap" where
  "append_last h a n =
     (case cells h a of
        Some (Structure refs) \<Rightarrow>
          and_then (py_index refs (- 1))
            (\<lambda>i. case cells h (refs ! i) of
                   Some (Stage xs) \<Rightarrow> Inr (h\<lparr>cells := (cells h)(refs ! i \<mapsto> Stage (xs @ [n]))\<rparr>)
                 | _ \<Rightarrow> Inl TypeError)
      | _ \<Rightarrow> Inl TypeError)"

text \<open>
  The structures of \<^verbatim>\<open>_build_training_graph\<close>: \<open>base\<close> is
  \<^verbatim>\<open>config.network.structure\<close>, \<open>tutor\<close> is \<^verbatim>\<open>config.training.tutor.structure\<close>
  when the tutor's configuration has one. The result is the two new structures and the
  store after the two appends.
\<close>

definition build_structures ::
  "heap \<Rightarrow> addr \<Rightarrow> addr option \<Rightarrow> nat \<Rightarrow> py_error + (addr \<times> addr \<times> heap)" where
  "build_structures h base tutor n_classes =
     and_then (deepcopy h base) (\<lambda>(network_structure, h1).
     and_then (case tutor of Some t \<Rightarrow> deepcopy h1 t | None \<Rightarrow> deepcopy h1 network_structure)
       (\<lambda>(tutor_structure, h2).
     and_then (append_last h2 network_structure (int n_classes)) (\<lambda>h3.
     and_then (append_last h3 tutor_structure 1) (\<lambda>h4.
       Inr (network_structure, tutor_structure, h4)))))"

text \<open>
  Reading a structure off the store: the widths of its stages, and the addresses it
  occupies (its own and its stages'). A store is well formed when nothing lives at an
  address that was never allocated.
\<close>

definition stage_value :: "heap \<Rightarrow> addr \<Rightarrow> int list option" where
  "stage_value h r = (case cells h r of Some (Stage xs) \<Rightarrow> Some xs | _ \<Rightarrow> None)"

definition structure_value :: "heap \<Rightarrow> addr \<Rightarrow> int list list option" where
  "structure_value h a =
     (case cells h a of
        Some (Structure refs) \<Rightarrow> those (map (stage_value h) refs)
      | _ \<Rightarrow> None)"

definition footprint :: "heap \<Rightarrow> addr \<Rightarrow> addr set" where
  "footprint h a =
     insert a (case cells h a of Some (Structure refs) \<Rightarrow> set refs | _ \<Rightarrow> {})"

definition wf_heap :: "heap \<Rightarrow> bool" where
  "wf_heap h = (\<forall>a. next_free h \<le> a \<longrightarrow> cells h a = None)"

subsection \<open>Reference notions for the properties\<close>

text \<open>
  The mean squared error between the tutor output and its labels over a set of points,
  as the specification words it: the sum of the squared differences at the points of the
  set over their number.
\<close>

definition mse_on :: "nat set \<Rightarrow> real list \<Rightarrow> real list \<Rightarrow> real" where
  "mse_on S labels T = (\<Sum>p\<in>S. (T ! p - labels ! p)\<^sup>2) / real (card S)"

text \<open>
  The merged gradient list as the specification words it: the positions at which every
  device reports a gradient that is present, in order, each with the arithmetic mean of
  the per-device gradients and the parameter of the first device.
\<close>

definition averaged_where_all_present :: "grad_entry list list \<Rightarrow> grad_entry list" where
  "averaged_where_all_present gss =
     map (\<lambda>i. (Some ((\<Sum>d<length gss. the (fst (gss ! d ! i))) / real (length gss)),
                snd (gss ! 0 ! i)))
       (filter (\<lambda>i. \<forall>d<length gss. i < length (gss ! d) \<and> fst (gss ! d ! i) \<noteq> None)
          [0..<length (gss ! 0)])"

text \<open>Position \<open>i\<close> of every list, and whether every list has a position \<open>i\<close>.\<close>

definition column :: "'a list list \<Rightarrow> nat \<Rightarrow> 'a list" where
  "column xss i = map (\<lambda>xs. xs ! i) xss"

definition full_rows :: "'a list list \<Rightarrow> nat \<Rightarrow> bool" where
  "full_rows xss i = (\<forall>xs\<in>set xss. i < length xs)"




text \<open>
  What a deep copy leaves behind: a new structure \<open>a'\<close> with new stages
  \<open>refs'\<close>, all at addresses that were free before, the stages with the contents
  of the stages \<open>refs\<close> of the original, and the old store as it was.
\<close>

definition copy_of :: "heap \<Rightarrow> addr list \<Rightarrow> heap \<Rightarrow> addr \<Rightarrow> addr list \<Rightarrow> bool" where
  "copy_of h refs h' a' refs' =
     (wf_heap h' \<and> next_free h \<le> a' \<and> a' < next_free h' \<and> (\<forall>b<next_free h. cells h' b = cells h b) \<and>
      cells h' a' = Some (Structure refs') \<and> length refs' = length refs \<and>
      (\<forall>i<length refs. a' < refs' ! i \<and> refs' ! i < next_free h' \<and>
          cells h' (refs' ! i) = cells h (refs ! i)))"

subsection \<open>Example inputs\<close>

text \<open>
  Two points with equal logits for two classes, the first labelled \<^verbatim>\<open>ball\<close> and the
  second \<^verbatim>\<open>field\<close>.
\<close>

definition ex_X :: "real list list" where
  "ex_X = [[0, 0], [0, 0]]"

definition ex_Y :: "real list list" where
  "ex_Y = [[1, 0], [0, 1]]"

definition ex_cfg :: config where
  "ex_cfg = \<lparr>classes = [(''ball'', (255, 0, 0)), (''field'', (0, 255, 0))],
     threshold = 1 / 10, base_weight = 1 / 2, validation_frequency = 10,
     save_frequency = 100\<rparr>"

text \<open>Tutor outputs for these two points: far from the tutor labels, and on them.\<close>

definition ex_T_far :: "real list" where
  "ex_T_far = [3 / 4, 1 / 4]"

definition ex_T_near :: "real list" where
  "ex_T_near = [1 / 4, 1 / 4]"

text \<open>
  Two device bundles: the first has no gradient for the second parameter and one
  parameter more than the second.
\<close>

definition ex_dev_a :: "(unit, unit, unit) device_ops" where
  "ex_dev_a =
     \<lparr>op_data = Direct (), op_X = Direct (), op_T = Direct (),
      op_loss = \<lparr>u_loss = Fin 1, x_loss = Fin 2, t_loss = Fin 3\<rparr>,
      op_grads =
        \<lparr>x_grads = [(Some 1, ''w0''), (None, ''b0''), (Some 5, ''w1'')],
         t_grads = [(Some 4, ''tw0'')]\<rparr>,
      op_metrics = []\<rparr>"

definition ex_dev_b :: "(unit, unit, unit) device_ops" where
  "ex_dev_b =
     \<lparr>op_data = Direct (), op_X = Direct (), op_T = Direct (),
      op_loss = \<lparr>u_loss = Fin 3, x_loss = Fin 4, t_loss = Fin 5\<rparr>,
      op_grads =
        \<lparr>x_grads = [(Some 3, ''w0''), (Some 2, ''b0'')],
         t_grads = [(Some 6, ''tw0'')]\<rparr>,
      op_metrics = []\<rparr>"



text \<open>A fresh session with one variable, and an update rule that keeps the values.\<close>

definition ex_session :: "real list session" where
  "ex_session =
     \<lparr>trainable = [(''Network/Conv_0/Layer_0/Weights:0'', [1, 2])], global_step = 0, log = []\<rparr>"

definition ex_upd :: "optimiser \<Rightarrow> (string \<times> real list) list \<Rightarrow> (string \<times> real list) list" where
  "ex_upd opt vs = vs"

text \<open>
  A store with the structure \<^verbatim>\<open>[[4], [8, 8]]\<close> at address 2, its stages at the
  addresses 0 and 1.
\<close>

definition ex_heap :: heap where
  "ex_heap =
     \<lparr>cells = [0 \<mapsto> Stage [4], 1 \<mapsto> Stage [8, 8], 2 \<mapsto> Structure [0, 1]], next_free = 3\<rparr>"

section \<open>Properties\<close>

subsection \<open>Single-device merge\<close>

text \<open>
  Claim C8. For a list of exactly one device op bundle, the merge stage of the training
  graph builder returns that bundle itself: the same data, outputs, losses, gradients
  and metrics, with no merging applied.
\<close>

theorem single_device_merge_identity: "merge_stage [b] = Inr b"
  by (simp add: merge_stage_def)

subsection \<open>Metrics engine\<close>

lemma map_of_dict_set: "map_of (dict_set kvs k v) k = Some v"
  by (induction kvs) auto


lemma map_fst_dict_set:
  "map fst (dict_set kvs k v) = (if k \<in> fst ` set kvs then map fst kvs else map fst kvs @ [k])"
  by (induction kvs) force+

lemma keys_dict_set: "set (map fst (dict_set kvs k v)) = insert k (set (map fst kvs))"
  unfolding map_fst_dict_set by auto

lemma filter_dict_set:
  "filter (\<lambda>(k', e). k' \<noteq> k) (dict_set kvs k v) = filter (\<lambda>(k', e). k' \<noteq> k) kvs"
  by (induction kvs) auto

lemma filter_absent_key:
  "k \<notin> set (map fst kvs) \<Longrightarrow> filter (\<lambda>(k', e). k' \<noteq> k) kvs = kvs"
  by (induction kvs) auto

lemma keys_class_metrics:
  "set (map fst (class_metrics X Y ics acc)) = set (map fst acc) \<union> set (map snd ics)"
  by (induction ics arbitrary: acc) (auto simp: keys_dict_set simp del: set_map)


text \<open>
  Claim C7. In every metrics mapping that the metrics engine builds, the \<^verbatim>\<open>'Global'\<close>
  entry's \<^verbatim>\<open>tp\<close>, \<^verbatim>\<open>tn\<close>, \<^verbatim>\<open>fp\<close> and \<^verbatim>\<open>fn\<close> are the sums of these values
  over the per-class entries, the dictionary as the loop over the classes leaves it; and
  when no class is itself named \<^verbatim>\<open>Global\<close>, these are exactly the entries of the
  result other than \<^verbatim>\<open>'Global'\<close>.
\<close>

theorem global_counts_are_class_sums:
  assumes "metrics X Y cfg = Inr m"
  defines "per_class \<equiv> class_metrics X Y (enumerate 0 (map fst (classes cfg))) []"
  shows "\<exists>g. map_of m ''Global'' = Some g
           \<and> tp g = (\<Sum>(k, e) \<leftarrow> per_class. tp e)
           \<and> tn g = (\<Sum>(k, e) \<leftarrow> per_class. tn e)
           \<and> fp g = (\<Sum>(k, e) \<leftarrow> per_class. fp e)
           \<and> fn g = (\<Sum>(k, e) \<leftarrow> per_class. fn e)
           \<and> (''Global'' \<notin> fst ` set (classes cfg) \<longrightarrow>
                filter (\<lambda>(k, e). k \<noteq> ''Global'') m = per_class)"
proof -
  from assms(1) obtain g where g: "global_metric per_class = Inr g"
    and m: "m = dict_set per_class ''Global'' g"
    by (auto simp: metrics_def per_class_def Let_def split: sum.splits)
  have keys: "set (map fst per_class) = fst ` set (classes cfg)"
    by (simp add: per_class_def keys_class_metrics del: set_map) simp
  from g have "tp g = (\<Sum>(k, e) \<leftarrow> per_class. tp e)" "tn g = (\<Sum>(k, e) \<leftarrow> per_class. tn e)"
    "fp g = (\<Sum>(k, e) \<leftarrow> per_class. fp e)" "fn g = (\<Sum>(k, e) \<leftarrow> per_class. fn e)"
    by (auto simp: global_metric_def Let_def split: if_splits)
  moreover have "map_of m ''Global'' = Some g"
    by (simp add: m map_of_dict_set)
  moreover have "''Global'' \<notin> fst ` set (classes cfg) \<longrightarrow>
      filter (\<lambda>(k, e). k \<noteq> ''Global'') m = per_class"
    using keys by (simp add: m filter_dict_set filter_absent_key del: set_map)
  ultimately show ?thesis by blast
qed

lemma sce0 [simp]: "softmax_cross_entropy [0, 0] [1, 0] = ln 2" "softmax_cross_entropy [0, 0] [0, 1] = ln 2"
  by (simp_all add: softmax_cross_entropy_def)

lemma per_class_example:
  "class_metrics ex_X ex_Y (enumerate 0 (map fst (classes ex_cfg))) [] =
     [(''ball'', \<lparr>loss = Fin (ln 2), tp = 1, tn = 0, fp = 1, fn = 0\<rparr>),
      (''field'', \<lparr>loss = Fin (ln 2), tp = 0, tn = 1, fp = 0, fn = 1\<rparr>)]"
  by (simp add: ex_X_def ex_Y_def ex_cfg_def class_metric_def softmax_def
      argmax_def reduce_mean_def gather_nd_def where_class_def count_nonzero_int_def Let_def upt_rec)

lemma metrics_example:
  "metrics ex_X ex_Y ex_cfg = Inr
     [(''ball'', \<lparr>loss = Fin (ln 2), tp = 1, tn = 0, fp = 1, fn = 0\<rparr>),
      (''field'', \<lparr>loss = Fin (ln 2), tp = 0, tn = 1, fp = 0, fn = 1\<rparr>),
      (''Global'', \<lparr>loss = Fin 1, tp = 1, tn = 1, fp = 1, fn = 1\<rparr>)]"
  by (simp add: metrics_def per_class_example global_metric_def)

theorem global_counts_are_class_sums_witness:
  "\<exists>m g. metrics ex_X ex_Y ex_cfg = Inr m \<and> map_of m ''Global'' = Some g
     \<and> tp g = 1 \<and> tn g = 1 \<and> fp g = 1 \<and> fn g = 1
     \<and> ''Global'' \<notin> fst ` set (classes ex_cfg)
     \<and> filter (\<lambda>(k, e). k \<noteq> ''Global'') m =
         class_metrics ex_X ex_Y (enumerate 0 (map fst (classes ex_cfg))) []"
proof -
  have ng: "''Global'' \<notin> fst ` set (classes ex_cfg)"
    by (simp add: ex_cfg_def)
  from global_counts_are_class_sums [OF metrics_example] ng
  show ?thesis
    by (simp add: metrics_example per_class_example)
qed

text \<open>
  Whatever the batch, the \<^verbatim>\<open>'Global'\<close> loss is the number of entries with a nonzero
  loss over itself: one, or not a number when that number is zero.
\<close>

lemma global_loss_constant:
  assumes "global_metric ms = Inr g"
  shows "loss g = Fin 1 \<or> loss g = NonFinite"
proof -
  let ?cl = "map (\<lambda>(k, m). if nonzero (loss m) then 1 else 0 :: nat) ms"
  have "sum_list ?cl = length (filter (\<lambda>l. l \<noteq> 0) ?cl)"
    by (induction ms) (auto split: if_splits)
  with assms show ?thesis
    by (auto simp: global_metric_def Let_def split: if_splits)
qed

text \<open>
  Claim C1 (the code departs from it). On two points with equal logits, one labelled
  \<^verbatim>\<open>ball\<close> and one \<^verbatim>\<open>field\<close>, both per-class losses are \<open>ln 2\<close>, so the sum of
  the per-class losses over the number of classes with a nonzero loss is \<open>ln 2\<close>; the
  \<^verbatim>\<open>'Global'\<close> loss that \<^verbatim>\<open>_metrics\<close> stores is 1.
\<close>

theorem global_loss_is_ratio_of_counts:
  "metrics ex_X ex_Y ex_cfg = Inr
     [(''ball'', \<lparr>loss = Fin (ln 2), tp = 1, tn = 0, fp = 1, fn = 0\<rparr>),
      (''field'', \<lparr>loss = Fin (ln 2), tp = 0, tn = 1, fp = 0, fn = 1\<rparr>),
      (''Global'', \<lparr>loss = Fin 1, tp = 1, tn = 1, fp = 1, fn = 1\<rparr>)]
   \<and> fdiv (Fin (ln 2) + Fin (ln 2)) (Fin 2) \<noteq> Fin 1"
  using ln_2_less_1 by (simp add: metrics_example)


subsection \<open>Tutor loss\<close>

lemma sum_list_map2_nth:
  "length xs = length ys \<Longrightarrow>
   sum_list (map2 f xs ys) = (\<Sum>i<length xs. f (xs ! i) (ys ! i) :: real)"
proof -
  assume len: "length xs = length ys"
  have "sum_list (map2 f xs ys) = (\<Sum>i = 0..<length (map2 f xs ys). map2 f xs ys ! i)"
    by (rule sum_list_sum_nth)
  also have "\<dots> = (\<Sum>i = 0..<length xs. f (xs ! i) (ys ! i))"
    using len by (intro sum.cong) auto
  finally show ?thesis by (simp add: lessThan_atLeast0)
qed

lemma mean_squared_error_full:
  "length labels = length T \<Longrightarrow> mean_squared_error labels T = mse_on {..<length T} labels T"
  by (simp add: mean_squared_error_def mse_on_def sum_list_map2_nth)

lemma mean_squared_error_gather:
  assumes "distinct idx"
  shows "mean_squared_error (gather_nd labels idx) (gather_nd T idx) = mse_on (set idx) labels T"
proof -
  have "sum_list (map2 (\<lambda>p l. (p - l)\<^sup>2) (map ((!) T) idx) (map ((!) labels) idx))
        = sum_list (map (\<lambda>p. (T ! p - labels ! p)\<^sup>2) idx)"
    by (induction idx) simp_all
  also have "\<dots> = (\<Sum>p\<in>set idx. (T ! p - labels ! p)\<^sup>2)"
    using assms by (simp add: sum_list_distinct_conv_sum_set)
  finally show ?thesis
    using assms by (simp add: mean_squared_error_def mse_on_def gather_nd_def distinct_card)
qed

lemma tutor_loss_spec:
  fixes thr :: real
  assumes len: "length labels = length T"
  defines "S \<equiv> {p. p < length T \<and> \<bar>labels ! p - T ! p\<bar> > thr}"
  shows "tutor_loss labels T thr = (if S = {} then mse_on {..<length T} labels T else mse_on S labels T)"
proof -
  have set: "set (tutor_idx labels T thr) = S"
    using len by (auto simp: tutor_idx_def S_def)
  have dist: "distinct (tutor_idx labels T thr)"
    by (simp add: tutor_idx_def)
  show ?thesis
  proof (cases "S = {}")
    case True
    then have "tutor_idx labels T thr = []" using set by simp
    then show ?thesis using True len
      by (simp add: tutor_loss_def mean_squared_error_full)
  next
    case False
    then have "tutor_idx labels T thr \<noteq> []" using set by auto
    then show ?thesis using False
      by (simp add: tutor_loss_def Let_def mean_squared_error_gather[OF dist] set)
  qed
qed

lemma length_tutor_labels: "length (tutor_labels X Y) = min (length Y) (length X)"
  by (simp add: tutor_labels_def)

text \<open>
  Claim C3. The tutor loss that \<^verbatim>\<open>_loss\<close> returns is the mean squared error between
  the tutor output and the tutor labels over exactly the points whose absolute
  difference exceeds the threshold, when there is such a point, and the mean squared
  error over all points when there is none.
\<close>

theorem tutor_loss_restricted_or_full:
  assumes "loss_fun X T Y cfg = Inr (u, x, t)"
    and "length X = length T" and "length Y = length T"
  defines "labels \<equiv> tutor_labels X Y"
  defines "S \<equiv> {p. p < length T \<and> \<bar>labels ! p - T ! p\<bar> > threshold cfg}"
  shows "(S \<noteq> {} \<longrightarrow> t = mse_on S labels T) \<and>
         (S = {} \<longrightarrow> t = mse_on {..<length T} labels T)"
proof -
  from assms(1) have "t = tutor_loss labels T (threshold cfg)"
    by (auto simp: loss_fun_def labels_def Let_def split: sum.splits)
  moreover have "length labels = length T"
    using assms(2,3) by (simp add: labels_def length_tutor_labels)
  ultimately show ?thesis
    unfolding S_def by (auto simp: tutor_loss_spec)
qed
lemma ex_tutor_labels: "tutor_labels ex_X ex_Y = [1/4, 1/4]"
  by (simp add: tutor_labels_def ex_X_def ex_Y_def softmax_def power2_eq_square)

lemma ex_loss_fun_Inr: "\<exists>u x. loss_fun ex_X T ex_Y ex_cfg = Inr (u, x, tutor_loss (tutor_labels ex_X ex_Y) T (threshold ex_cfg))"
  by (simp add: loss_fun_def loss_weights_def add_n_vec_def scatters_def ex_cfg_def Let_def)

theorem tutor_loss_restricted_or_full_witness:
  "(\<exists>u x. loss_fun ex_X ex_T_far ex_Y ex_cfg = Inr (u, x, 1 / 4)) \<and>
   {p. p < length ex_T_far \<and> \<bar>tutor_labels ex_X ex_Y ! p - ex_T_far ! p\<bar> > threshold ex_cfg} = {0} \<and>
   1 / 4 = mse_on {0} (tutor_labels ex_X ex_Y) ex_T_far \<and>
   (\<exists>u x. loss_fun ex_X ex_T_near ex_Y ex_cfg = Inr (u, x, 0)) \<and>
   {p. p < length ex_T_near \<and> \<bar>tutor_labels ex_X ex_Y ! p - ex_T_near ! p\<bar> > threshold ex_cfg} = {} \<and>
   0 = mse_on {..<length ex_T_near} (tutor_labels ex_X ex_Y) ex_T_near"
proof -
  have Sfar: "{p. p < length ex_T_far \<and> \<bar>tutor_labels ex_X ex_Y ! p - ex_T_far ! p\<bar> > threshold ex_cfg} = {0}"
    by (auto simp: ex_tutor_labels ex_T_far_def ex_cfg_def less_Suc_eq)
  have Snear: "{p. p < length ex_T_near \<and> \<bar>tutor_labels ex_X ex_Y ! p - ex_T_near ! p\<bar> > threshold ex_cfg} = {}"
    by (auto simp: ex_tutor_labels ex_T_near_def ex_cfg_def less_Suc_eq)
  have tfar: "tutor_loss (tutor_labels ex_X ex_Y) ex_T_far (threshold ex_cfg) = 1 / 4"
    by (simp add: tutor_loss_def tutor_idx_def ex_tutor_labels ex_T_far_def ex_cfg_def
        mean_squared_error_def gather_nd_def upt_rec power2_eq_square)
  have tnear: "tutor_loss (tutor_labels ex_X ex_Y) ex_T_near (threshold ex_cfg) = 0"
    by (simp add: tutor_loss_def tutor_idx_def ex_tutor_labels ex_T_near_def ex_cfg_def
        mean_squared_error_def gather_nd_def upt_rec)
  obtain u x where far: "loss_fun ex_X ex_T_far ex_Y ex_cfg = Inr (u, x, 1 / 4)"
    using ex_loss_fun_Inr[of ex_T_far] tfar by auto
  obtain u' x' where near: "loss_fun ex_X ex_T_near ex_Y ex_cfg = Inr (u', x', 0)"
    using ex_loss_fun_Inr[of ex_T_near] tnear by auto
  have lens: "length ex_X = length ex_T_far" "length ex_Y = length ex_T_far"
    "length ex_X = length ex_T_near" "length ex_Y = length ex_T_near"
    by (simp_all add: ex_X_def ex_Y_def ex_T_far_def ex_T_near_def)
  from tutor_loss_restricted_or_full [OF far lens(1,2)]
       tutor_loss_restricted_or_full [OF near lens(3,4)]
  show ?thesis
    using far near by (simp add: Sfar Snear)
qed


subsection \<open>Multi-device merger\<close>

lemma concat_map_if:
  "concat (map (\<lambda>i. if P i then [f i] else []) is) = map f (filter P is)"
  by (induction "is") auto

lemma filter_upt_shift:
  "filter P [0..<Suc n] = (if P 0 then [0] else []) @ map Suc (filter (P \<circ> Suc) [0..<n])"
proof -
  have "[0..<Suc n] = 0 # map Suc [0..<n]"
    by (metis upt_conv_Cons zero_less_Suc map_Suc_upt)
  then show ?thesis by (simp add: filter_map del: upt_Suc)
qed

lemma zip_star_columns:
  "xss \<noteq> [] \<Longrightarrow> zip_star xss = map (column xss) (filter (full_rows xss) [0..<length (hd xss)])"
proof (induction xss rule: zip_star.induct)
  case (1 xss)
  show ?case
  proof (cases "\<exists>xs\<in>set xss. xs = []")
    case True
    then have "\<And>i. \<not> full_rows xss i" by (force simp: full_rows_def)
    then show ?thesis using True 1(2) by (subst zip_star.simps) simp
  next
    case False
    with 1(2) have ne: "\<not> (xss = [] \<or> (\<exists>xs\<in>set xss. xs = []))" by simp
    have tl_ne: "map tl xss \<noteq> []" using 1(2) by simp
    have IH: "zip_star (map tl xss) =
        map (column (map tl xss)) (filter (full_rows (map tl xss)) [0..<length (hd (map tl xss))])"
      by (rule 1(1)[OF ne tl_ne])
    have hdne: "hd xss \<noteq> []" using False 1(2) by (cases xss) auto
    then obtain n where n: "length (hd xss) = Suc n" by (cases "hd xss") auto
    have len_tl: "length (hd (map tl xss)) = n" using n 1(2) by (simp add: hd_map)
    have fr0: "full_rows xss 0" using False by (auto simp: full_rows_def)
    have frS: "\<And>i. full_rows (map tl xss) i = full_rows xss (Suc i)"
    proof -
      fix i
      have "\<And>xs. xs \<in> set xss \<Longrightarrow> (i < length (tl xs)) = (Suc i < length xs)"
        using False by (case_tac xs) auto
      then show "full_rows (map tl xss) i = full_rows xss (Suc i)"
        by (auto simp: full_rows_def)
    qed
    have "\<And>xs. xs \<in> set xss \<Longrightarrow> xs ! 0 = hd xs"
      using False by (case_tac xs) auto
    then have col0: "column xss 0 = map hd xss"
      by (simp add: column_def)
    have "\<And>xs i. xs \<in> set xss \<Longrightarrow> tl xs ! i = xs ! Suc i"
      using False by (case_tac xs) auto
    then have colS: "\<And>i. column (map tl xss) i = column xss (Suc i)"
      by (simp add: column_def)
    have "zip_star xss = map hd xss # zip_star (map tl xss)"
      using ne by (subst zip_star.simps) simp
    also have "\<dots> = column xss 0 # map (column (map tl xss)) (filter (full_rows (map tl xss)) [0..<n])"
      by (simp only: IH len_tl col0)
    also have "map (column (map tl xss)) (filter (full_rows (map tl xss)) [0..<n])
        = map (column xss) (map Suc (filter (full_rows xss \<circ> Suc) [0..<n]))"
    proof -
      have "column (map tl xss) = column xss \<circ> Suc" "full_rows (map tl xss) = full_rows xss \<circ> Suc"
        using colS frS by (simp_all add: fun_eq_iff)
      then show ?thesis by (simp only: map_map)
    qed
    also have "column xss 0 # map (column xss) (map Suc (filter (full_rows xss \<circ> Suc) [0..<n]))
        = map (column xss) (filter (full_rows xss) [0..<Suc n])"
      by (simp only: filter_upt_shift[of "full_rows xss" n] fr0 if_True list.map append.simps)
    finally show ?thesis by (simp only: n)
  qed
qed

lemma merge_grad_tuple_column:
  assumes "gss \<noteq> []" "full_rows gss i"
  shows "merge_grad_tuple (length gss) (column gss i) =
     (if \<forall>d<length gss. fst (gss ! d ! i) \<noteq> None
      then [(Some ((\<Sum>d<length gss. the (fst (gss ! d ! i))) / real (length gss)), snd (gss ! 0 ! i))]
      else [])"
proof (cases "\<forall>d<length gss. fst (gss ! d ! i) \<noteq> None")
  case True
  have vals: "map grad_value (column gss i) = map (\<lambda>d. the (fst (gss ! d ! i))) [0..<length gss]"
  proof (rule nth_equalityI)
    show "length (map grad_value (column gss i)) = length (map (\<lambda>d. the (fst (gss ! d ! i))) [0..<length gss])"
      by (simp add: column_def)
    fix d assume "d < length (map grad_value (column gss i))"
    then have d: "d < length gss" by (simp add: column_def)
    with True obtain g where "fst (gss ! d ! i) = Some g" by auto
    then show "map grad_value (column gss i) ! d = map (\<lambda>d. the (fst (gss ! d ! i))) [0..<length gss] ! d"
      using d by (cases "gss ! d ! i") (simp add: column_def)
  qed
  have "sum_list (map grad_value (column gss i)) = (\<Sum>d<length gss. the (fst (gss ! d ! i)))"
    unfolding vals by (simp add: sum_list_sum_nth lessThan_atLeast0 interv_sum_list_conv_sum_set_nat)
  moreover have "\<not> list_ex (\<lambda>v. fst v = None) (column gss i)"
    using True by (auto simp: list_ex_iff column_def in_set_conv_nth)
  moreover have "hd (column gss i) = gss ! 0 ! i"
    using assms(1) by (cases gss) (simp_all add: column_def)
  ultimately show ?thesis using True by (simp add: merge_grad_tuple_def)
next
  case False
  then have "list_ex (\<lambda>v. fst v = None) (column gss i)"
    by (auto simp: list_ex_iff column_def)
  then show ?thesis using False by (simp add: merge_grad_tuple_def)
qed

lemma concat_map_filter_if:
  "concat (map (\<lambda>i. if P i then [f i] else []) (filter Q is)) = map f (filter (\<lambda>i. Q i \<and> P i) is)"
  by (induction "is") auto

lemma full_rows_nth: "full_rows gss i = (\<forall>d<length gss. i < length (gss ! d))"
  unfolding full_rows_def by (simp add: all_set_conv_all_nth)

lemma merge_grads_spec:
  assumes "gss \<noteq> []"
  shows "merge_grads gss = averaged_where_all_present gss"
proof -
  let ?f = "\<lambda>i. (Some ((\<Sum>d<length gss. the (fst (gss ! d ! i))) / real (length gss)), snd (gss ! 0 ! i))"
  let ?P = "\<lambda>i. \<forall>d<length gss. fst (gss ! d ! i) \<noteq> None"
  have hd: "hd gss = gss ! 0" using assms by (simp add: hd_conv_nth)
  have "merge_grads gss =
      concat (map (\<lambda>i. merge_grad_tuple (length gss) (column gss i))
                (filter (full_rows gss) [0..<length (hd gss)]))"
    using assms by (simp add: merge_grads_def zip_star_columns comp_def)
  also have "\<dots> = concat (map (\<lambda>i. if ?P i then [?f i] else [])
                 (filter (full_rows gss) [0..<length (hd gss)]))"
    by (rule arg_cong[where f = concat], rule map_cong)
       (simp_all add: merge_grad_tuple_column[OF assms])
  also have "\<dots> = map ?f (filter (\<lambda>i. full_rows gss i \<and> ?P i) [0..<length (hd gss)])"
    by (rule concat_map_filter_if)
  also have "(\<lambda>i. full_rows gss i \<and> ?P i) =
      (\<lambda>i. \<forall>d<length gss. i < length (gss ! d) \<and> fst (gss ! d ! i) \<noteq> None)"
    unfolding full_rows_nth by blast
  finally show ?thesis
    unfolding averaged_where_all_present_def hd .
qed

text \<open>
  Claim C5. For two or more device bundles, the merged gradient list holds an entry for
  a position exactly when every device reports a gradient that is present at that
  position, in the order of the positions; its value is the arithmetic mean of the
  per-device gradients. A position at which some device reports no gradient is left out.
\<close>

theorem merged_gradients_average_all_present:
  assumes "2 \<le> length device_ops" and "merge_ops device_ops = Inr b"
  shows "x_grads (op_grads b) =
           averaged_where_all_present (map (\<lambda>op. x_grads (op_grads op)) device_ops)
       \<and> t_grads (op_grads b) =
           averaged_where_all_present (map (\<lambda>op. t_grads (op_grads op)) device_ops)"
proof -
  from assms(1) have ne: "map (\<lambda>op. x_grads (op_grads op)) device_ops \<noteq> []"
    "map (\<lambda>op. t_grads (op_grads op)) device_ops \<noteq> []"
    by auto
  from assms(2) have "x_grads (op_grads b) = merge_grads (map (\<lambda>op. x_grads (op_grads op)) device_ops)"
    "t_grads (op_grads b) = merge_grads (map (\<lambda>op. t_grads (op_grads op)) device_ops)"
    by (auto simp: merge_ops_def and_then_def split: sum.splits)
  then show ?thesis
    by (simp only: merge_grads_spec[OF ne(1)] merge_grads_spec[OF ne(2)])
qed

lemma ex_averaged_x:
  "averaged_where_all_present
     [[(Some 1, ''w0''), (None, ''b0''), (Some 5, ''w1'')], [(Some 3, ''w0''), (Some 2, ''b0'')]]
   = [(Some 2, ''w0'')]"
  by (simp add: averaged_where_all_present_def upt_rec less_Suc_eq numeral_2_eq_2 all_conj_distrib lessThan_Suc
       nth_Cons')

lemma ex_averaged_t:
  "averaged_where_all_present [[(Some 4, ''tw0'')], [(Some 6, ''tw0'')]] = [(Some 5, ''tw0'')]"
  by (simp add: averaged_where_all_present_def upt_rec less_Suc_eq numeral_2_eq_2 all_conj_distrib
      lessThan_Suc nth_Cons')

theorem merged_gradients_average_all_present_witness:
  "2 \<le> length [ex_dev_a, ex_dev_b] \<and>
   (\<exists>b. merge_ops [ex_dev_a, ex_dev_b] = Inr b
      \<and> x_grads (op_grads b) = [(Some 2, ''w0'')]
      \<and> t_grads (op_grads b) = [(Some 5, ''tw0'')])"
proof -
  have len: "2 \<le> length [ex_dev_a, ex_dev_b]" by simp
  obtain b where b: "merge_ops [ex_dev_a, ex_dev_b] = Inr b"
    by (simp add: merge_ops_def and_then_def add_n_def merge_metrics_def ex_dev_a_def ex_dev_b_def)
  from merged_gradients_average_all_present [OF len b]
  have "x_grads (op_grads b) = [(Some 2, ''w0'')] \<and> t_grads (op_grads b) = [(Some 5, ''tw0'')]"
    by (simp add: ex_dev_a_def ex_dev_b_def ex_averaged_x ex_averaged_t)
  with len b show ?thesis by blast
qed

subsection \<open>Class-balance weights\<close>

lemma sum_list_update_add:
  fixes xs :: "'a::comm_monoid_add list"
  shows "k < length xs \<Longrightarrow> sum_list (xs[k := xs ! k + v]) = sum_list xs + v"
proof (induction xs arbitrary: k)
  case Nil
  then show ?case by simp
next
  case (Cons x xs)
  then show ?case by (cases k) (simp_all add: ac_simps)
qed

lemma sum_list_replicate_zero: "sum_list (replicate n (0 :: 'a::comm_monoid_add)) = 0"
  by (induction n) simp_all

lemma sum_list_replicate_Fin: "sum_list (replicate n (Fin 0)) = Fin 0"
  using sum_list_replicate_zero[where 'a = scalar] by (simp add: zero_scalar_def)

lemma length_scatter_nd: "length (scatter_nd idx pts n) = n"
  by (induction idx pts n rule: scatter_nd.induct) (simp_all add: Let_def)

lemma sum_list_scatter_nd:
  "length pts = length idx \<Longrightarrow> \<forall>p\<in>set idx. p < n \<Longrightarrow>
   sum_list (scatter_nd idx pts n) = sum_list pts"
proof (induction idx arbitrary: pts)
  case Nil
  then show ?case by (simp add: sum_list_replicate_zero)
next
  case (Cons p idx)
  then obtain v pts' where pts: "pts = v # pts'" by (cases pts) auto
  have "sum_list (scatter_nd (p # idx) (v # pts') n) = sum_list (scatter_nd idx pts' n) + v"
    unfolding scatter_nd.simps Let_def
    by (rule sum_list_update_add) (use Cons.prems in \<open>simp add: length_scatter_nd\<close>)
  then show ?case
    using Cons.IH[of pts'] Cons.prems by (simp add: pts add.commute)
qed

lemma sum_list_fdiv_Fin:
  "s \<noteq> 0 \<Longrightarrow> sum_list (map (\<lambda>v. fdiv (Fin v) (Fin s)) pts) = Fin (sum_list pts / s)"
  by (induction pts) (simp_all add: zero_scalar_def add_divide_distrib)

lemma sum_list_pos_real:
  fixes xs :: "real list"
  shows "xs \<noteq> [] \<Longrightarrow> \<forall>x\<in>set xs. 0 < x \<Longrightarrow> 0 < sum_list xs"
proof (induction xs)
  case Nil
  then show ?case by simp
next
  case (Cons x xs)
  then show ?case by (cases xs) (simp_all add: add_pos_pos)
qed

lemma where_class_bound: "p \<in> set (where_class Y i) \<Longrightarrow> p < length Y"
  by (simp add: where_class_def)

lemma class_scatter_sum:
  assumes len: "length Y = length T"
    and pos: "\<forall>t\<in>set T. 0 < t + bw"
    and mem: "where_class Y i \<noteq> []"
  shows "sum_list (class_scatter T Y bw i) = Fin 1"
proof -
  let ?idx = "where_class Y i"
  let ?pts = "map (\<lambda>t. t + bw) (gather_nd T ?idx)"
  have "\<forall>x\<in>set ?pts. 0 < x"
    using pos len by (auto simp: gather_nd_def dest!: where_class_bound)
  moreover have "?pts \<noteq> []" using mem by (simp add: gather_nd_def)
  ultimately have s: "0 < sum_list ?pts" by (rule sum_list_pos_real[rotated])
  have "sum_list (class_scatter T Y bw i) =
        sum_list (scatter_nd ?idx (map (\<lambda>v. fdiv (Fin v) (Fin (sum_list ?pts))) ?pts) (length T))"
    using mem by (simp add: class_scatter_def Let_def)
  also have "\<dots> = sum_list (map (\<lambda>v. fdiv (Fin v) (Fin (sum_list ?pts))) ?pts)"
    using len by (intro sum_list_scatter_nd) (auto simp: gather_nd_def dest!: where_class_bound)
  also have "\<dots> = Fin (sum_list ?pts / sum_list ?pts)"
    using s by (intro sum_list_fdiv_Fin) simp
  finally show ?thesis using s by simp
qed

lemma class_scatter_zeros:
  "where_class Y i = [] \<Longrightarrow> class_scatter T Y bw i = replicate (length T) (Fin 0)"
  by (simp add: class_scatter_def zero_scalar_def)

lemma length_class_scatter: "length (class_scatter T Y bw i) = length T"
  by (simp add: class_scatter_def Let_def length_scatter_nd)

lemma count_nonzero_zero_sum: "count_nonzero s = 0 \<Longrightarrow> sum_list s = 0"
proof (induction s)
  case Nil
  then show ?case by simp
next
  case (Cons a s)
  then show ?case
    by (cases a) (auto simp: count_nonzero_def zero_scalar_def split: if_splits)
qed

lemma class_scatter_active:
  assumes "length Y = length T" "\<forall>t\<in>set T. 0 < t + bw"
  shows "(0 < count_nonzero (class_scatter T Y bw i)) = (where_class Y i \<noteq> [])"
proof (cases "where_class Y i = []")
  case True
  then show ?thesis
    by (simp add: class_scatter_zeros count_nonzero_def)
next
  case False
  from class_scatter_sum[OF assms False] count_nonzero_zero_sum[of "class_scatter T Y bw i"]
  show ?thesis using False by (auto simp: zero_scalar_def)
qed

lemma sum_list_columns:
  fixes ss :: "'a::comm_monoid_add list list"
  shows "\<forall>s\<in>set ss. length s = n \<Longrightarrow>
    sum_list (map (\<lambda>p. sum_list (map (\<lambda>s. s ! p) ss)) [0..<n]) = sum_list (map sum_list ss)"
proof (induction ss)
  case Nil
  then show ?case by simp
next
  case (Cons s ss)
  have "sum_list (map (\<lambda>p. s ! p) [0..<n]) = sum_list s"
    using Cons.prems map_nth[of s] by simp
  with Cons show ?case by (simp add: sum_list_addf)
qed

lemma sum_list_fdiv_all:
  "k \<noteq> 0 \<Longrightarrow> sum_list (map (\<lambda>w. fdiv w (Fin k)) W) = fdiv (sum_list W) (Fin k)"
proof (induction W)
  case Nil
  then show ?case by (simp add: zero_scalar_def)
next
  case (Cons w W)
  then show ?case
    by (cases w; cases "sum_list W") (simp_all add: add_divide_distrib)
qed

lemma sum_list_indicator:
  "sum_list (map (\<lambda>i. if P i then Fin 1 else 0) xs) = Fin (real (length (filter P xs)))"
  by (induction xs) (simp_all add: zero_scalar_def)

lemma where_class_nonempty: "(where_class Y i \<noteq> []) = (\<exists>p<length Y. Y ! p ! i \<noteq> 0)"
  by (auto simp: where_class_def filter_empty_conv)

lemma scatters_total:
  assumes len: "length Y = length T" and pos: "\<forall>t\<in>set T. 0 < t + base_weight cfg"
  shows "sum_list (map sum_list (scatters T Y cfg)) = Fin (real (active_classes (scatters T Y cfg)))"
proof -
  let ?n = "length (classes cfg)"
  let ?mem = "\<lambda>i. where_class Y i \<noteq> []"
  have "map sum_list (scatters T Y cfg) = map (\<lambda>i. if ?mem i then Fin 1 else 0) [0..<?n]"
    using class_scatter_sum[OF len pos]
    by (auto simp: scatters_def class_scatter_zeros zero_scalar_def sum_list_replicate_Fin)
  moreover have "active_classes (scatters T Y cfg) = length (filter ?mem [0..<?n])"
    by (simp add: active_classes_def scatters_def filter_map comp_def class_scatter_active[OF len pos])
  ultimately show ?thesis by (simp add: sum_list_indicator)
qed

text \<open>
  Claim C4. For a batch with at least one labelled point, each per-class weight vector
  of the loss engine sums to 1 when the class has a true member and is all zeros when
  it has none, and the combined weight vector \<^verbatim>\<open>W\<close> sums to 1. The tutor output is a
  sigmoid, so it lies strictly between 0 and 1, and the base weight is a weight added to
  it: every point's tutor output plus the base weight is positive.
\<close>

theorem loss_weights_normalised:
  assumes len: "length Y = length T"
    and pos: "\<forall>t\<in>set T. 0 < t + base_weight cfg"
    and labelled: "\<exists>p<length Y. \<exists>i<length (classes cfg). Y ! p ! i \<noteq> 0"
  shows "(\<forall>i<length (classes cfg).
            ((\<exists>p<length Y. Y ! p ! i \<noteq> 0) \<longrightarrow>
               sum_list (class_scatter T Y (base_weight cfg) i) = Fin 1) \<and>
            (\<not> (\<exists>p<length Y. Y ! p ! i \<noteq> 0) \<longrightarrow>
               class_scatter T Y (base_weight cfg) i = replicate (length T) (Fin 0)))
       \<and> (\<exists>W. loss_weights T Y cfg = Inr W \<and> sum_list W = Fin 1)"
proof (intro conjI allI impI)
  fix i
  assume "\<exists>p<length Y. Y ! p ! i \<noteq> 0"
  then show "sum_list (class_scatter T Y (base_weight cfg) i) = Fin 1"
    using class_scatter_sum[OF len pos] by (simp add: where_class_nonempty)
next
  fix i
  assume "\<not> (\<exists>p<length Y. Y ! p ! i \<noteq> 0)"
  then have "where_class Y i = []"
    using where_class_nonempty[of Y i] by blast
  then show "class_scatter T Y (base_weight cfg) i = replicate (length T) (Fin 0)"
    by (rule class_scatter_zeros)
next
  let ?ss = "scatters T Y cfg"
  let ?k = "active_classes ?ss"
  from labelled obtain i where i: "i < length (classes cfg)" "where_class Y i \<noteq> []"
    by (auto simp: where_class_nonempty)
  then have ne: "?ss \<noteq> []" by (auto simp: scatters_def)
  have "class_scatter T Y (base_weight cfg) i \<in> set (filter (\<lambda>s. count_nonzero s \<noteq> 0) ?ss)"
    using i by (simp add: scatters_def class_scatter_active[OF len pos])
  then have k: "?k \<noteq> 0"
    unfolding active_classes_def by (metis length_0_conv empty_iff list.set(1))
  have cols: "sum_list (map (\<lambda>p. sum_list (map (\<lambda>s. s ! p) ?ss)) [0..<length T]) = Fin (real ?k)"
    using sum_list_columns[of ?ss "length T"] scatters_total[OF len pos]
    by (simp add: scatters_def length_class_scatter)
  have "loss_weights T Y cfg =
      Inr (map (\<lambda>w. fdiv w (Fin (real ?k))) (map (\<lambda>p. sum_list (map (\<lambda>s. s ! p) ?ss)) [0..<length T]))"
    using ne by (simp add: loss_weights_def add_n_vec_def Let_def)
  moreover have "sum_list (map (\<lambda>w. fdiv w (Fin (real ?k))) (map (\<lambda>p. sum_list (map (\<lambda>s. s ! p) ?ss)) [0..<length T]))
      = Fin 1"
  proof -
    have "real ?k \<noteq> 0" using k by simp
    from sum_list_fdiv_all[OF this, of "map (\<lambda>p. sum_list (map (\<lambda>s. s ! p) ?ss)) [0..<length T]"]
    show ?thesis
      using k by (simp only: cols) simp
  qed
  ultimately show "\<exists>W. loss_weights T Y cfg = Inr W \<and> sum_list W = Fin 1"
    by blast
qed

theorem loss_weights_normalised_witness:
  "length ex_Y = length ex_T_far
   \<and> list_all (\<lambda>t. 0 < t + base_weight ex_cfg) ex_T_far
   \<and> (\<exists>p<length ex_Y. \<exists>i<length (classes ex_cfg). ex_Y ! p ! i \<noteq> 0)
   \<and> class_scatter ex_T_far ex_Y (base_weight ex_cfg) 0 = [Fin 1, Fin 0]
   \<and> sum_list (class_scatter ex_T_far ex_Y (base_weight ex_cfg) 0) = Fin 1
   \<and> (\<exists>W. loss_weights ex_T_far ex_Y ex_cfg = Inr W \<and> sum_list W = Fin 1)"
proof -
  have h1: "length ex_Y = length ex_T_far"
    by (simp add: ex_Y_def ex_T_far_def)
  have h2: "\<forall>t\<in>set ex_T_far. 0 < t + base_weight ex_cfg"
    by (simp add: ex_T_far_def ex_cfg_def)
  have "ex_Y ! 0 ! 0 \<noteq> 0" by (simp add: ex_Y_def)
  then have h3: "\<exists>p<length ex_Y. \<exists>i<length (classes ex_cfg). ex_Y ! p ! i \<noteq> 0"
    by (intro exI[of _ 0] conjI) (simp_all add: ex_Y_def ex_cfg_def)
  have c0: "class_scatter ex_T_far ex_Y (base_weight ex_cfg) 0 = [Fin 1, Fin 0]"
    by (simp add: class_scatter_def where_class_def gather_nd_def ex_Y_def ex_T_far_def
        ex_cfg_def upt_rec zero_scalar_def Let_def)
  have zero_lt: "0 < length (classes ex_cfg)" by (simp add: ex_cfg_def)
  from loss_weights_normalised [OF h1 h2 h3] h3 zero_lt
  have "sum_list (class_scatter ex_T_far ex_Y (base_weight ex_cfg) 0) = Fin 1
      \<and> (\<exists>W. loss_weights ex_T_far ex_Y ex_cfg = Inr W \<and> sum_list W = Fin 1)"
    by (simp add: c0 zero_scalar_def)
  with h1 h2 h3 c0 show ?thesis by (simp add: list_all_iff)
qed

subsection \<open>Model exporter\<close>

























subsection \<open>Training loop and global step\<close>

lemma wind_down_raises: "wind_down sess = Inl (NameError ''validation_summary'')"
  by (simp add: wind_down_def name_lookup_def train_scope_def and_then_def)

lemma train_loop_never_returns: "\<exists>e. train_loop cfg upd n sess = Inl e"
proof (induction n arbitrary: sess)
  case 0
  then show ?case by (simp add: wind_down_raises)
next
  case (Suc n)
  then show ?case
    by (cases "loop_body cfg upd sess") (simp_all add: and_then_def)
qed

text \<open>
  Claim C2 (the code departs from it). For a training dataset of two batches, the loop
  runs two training steps; the exhaustion of the iterator enters the \<^verbatim>\<open>except\<close> block,
  whose first statement reads \<^verbatim>\<open>validation_summary\<close>, a name that is bound nowhere.
  The run ends in a \<^verbatim>\<open>NameError\<close>: no final validation pass, image pass or model
  save happens, and \<^verbatim>\<open>train\<close> does not return normally.
\<close>

theorem exhaustion_raises_name_error:
  "train_loop ex_cfg ex_upd 2 ex_session = Inl (NameError ''validation_summary'')"
  by (simp add: numeral_2_eq_2 loop_body_def run_train_def apply_gradients_def emit_def step_of_def
      ex_cfg_def ex_session_def ex_upd_def and_then_def Let_def wind_down_raises)




lemma global_step_emit [simp]: "global_step (emit es sess) = global_step sess"
  by (simp add: emit_def)






subsection \<open>Structure specs\<close>

lemma wf_heap_bound: "wf_heap h \<Longrightarrow> cells h a = Some v \<Longrightarrow> a < next_free h"
  unfolding wf_heap_def by (metis not_le option.distinct(1))

lemma alloc_props:
  assumes "wf_heap h" "alloc v h = (a, h1)"
  shows "a = next_free h" "next_free h1 = Suc (next_free h)" "wf_heap h1" "cells h1 (next_free h) = Some v"
    "\<And>b. b < next_free h \<Longrightarrow> cells h1 b = cells h b"
  using assms by (auto simp: alloc_def wf_heap_def)

lemma copy_stages_spec:
  assumes "wf_heap h"
    and "\<forall>r\<in>set rs. \<exists>xs. cells h r = Some (Stage xs)"
    and "\<forall>r r'. map_of memo r = Some r' \<longrightarrow> r \<in> set rs \<longrightarrow>
           n0 \<le> r' \<and> r' < next_free h \<and> cells h r' = cells h r"
    and "n0 \<le> next_free h"
  shows "\<exists>h' memo' rs'. copy_stages h memo rs = Inr (h', memo', rs') \<and> wf_heap h' \<and>
           next_free h \<le> next_free h' \<and> (\<forall>a<next_free h. cells h' a = cells h a) \<and> length rs' = length rs \<and>
           (\<forall>i<length rs. n0 \<le> rs' ! i \<and> rs' ! i < next_free h' \<and> cells h' (rs' ! i) = cells h (rs ! i))"
  using assms
proof (induction rs arbitrary: h memo)
  case Nil
  then show ?case by simp
next
  case (Cons r rs)
  from Cons.prems(2) obtain xs where xs: "cells h r = Some (Stage xs)" by auto
  then have r_old: "r < next_free h" using Cons.prems(1) wf_heap_bound by blast
  show ?case
  proof (cases "map_of memo r")
    case (Some r')
    with Cons.prems(3) have r': "n0 \<le> r'" "r' < next_free h" "cells h r' = cells h r" by auto
    have "\<exists>h' memo' rs'. copy_stages h memo rs = Inr (h', memo', rs') \<and> wf_heap h' \<and>
           next_free h \<le> next_free h' \<and> (\<forall>a<next_free h. cells h' a = cells h a) \<and> length rs' = length rs \<and>
           (\<forall>i<length rs. n0 \<le> rs' ! i \<and> rs' ! i < next_free h' \<and> cells h' (rs' ! i) = cells h (rs ! i))"
      by (rule Cons.IH) (use Cons.prems in auto)
    then obtain h' memo' rs' where rec: "copy_stages h memo rs = Inr (h', memo', rs')"
      and wf': "wf_heap h'" and next_free': "next_free h \<le> next_free h'"
      and frame: "\<forall>a<next_free h. cells h' a = cells h a" and len: "length rs' = length rs"
      and each: "\<forall>i<length rs. n0 \<le> rs' ! i \<and> rs' ! i < next_free h' \<and> cells h' (rs' ! i) = cells h (rs ! i)"
      by blast
    have res: "copy_stages h memo (r # rs) = Inr (h', memo', r' # rs')"
      using Some rec by (simp add: and_then_def)
    have "\<forall>i<length (r # rs). n0 \<le> (r' # rs') ! i \<and> (r' # rs') ! i < next_free h' \<and>
        cells h' ((r' # rs') ! i) = cells h ((r # rs) ! i)"
    proof (intro allI impI)
      fix i assume "i < length (r # rs)"
      then show "n0 \<le> (r' # rs') ! i \<and> (r' # rs') ! i < next_free h' \<and>
        cells h' ((r' # rs') ! i) = cells h ((r # rs) ! i)"
        using r' next_free' frame each by (cases i) auto
    qed
    with res wf' next_free' frame len show ?thesis by simp
  next
    case None
    obtain h1 where al: "alloc (Stage xs) h = (next_free h, h1)"
      by (simp add: alloc_def)
    note a = alloc_props[OF Cons.prems(1) al]
    have "\<exists>h' memo' rs'. copy_stages h1 ((r, next_free h) # memo) rs = Inr (h', memo', rs') \<and> wf_heap h' \<and>
           next_free h1 \<le> next_free h' \<and> (\<forall>a<next_free h1. cells h' a = cells h1 a) \<and> length rs' = length rs \<and>
           (\<forall>i<length rs. n0 \<le> rs' ! i \<and> rs' ! i < next_free h' \<and> cells h' (rs' ! i) = cells h1 (rs ! i))"
    proof (rule Cons.IH)
      show "wf_heap h1" by (rule a(3))
      show "\<forall>r\<in>set rs. \<exists>xs. cells h1 r = Some (Stage xs)"
      proof
        fix q assume "q \<in> set rs"
        with Cons.prems(2) obtain ys where "cells h q = Some (Stage ys)" by auto
        moreover from this have "q < next_free h" using Cons.prems(1) wf_heap_bound by blast
        ultimately show "\<exists>xs. cells h1 q = Some (Stage xs)" using a(5) by simp
      qed
      show "\<forall>q q'. map_of ((r, next_free h) # memo) q = Some q' \<longrightarrow> q \<in> set rs \<longrightarrow>
           n0 \<le> q' \<and> q' < next_free h1 \<and> cells h1 q' = cells h1 q"
      proof (intro allI impI)
        fix q q' assume m: "map_of ((r, next_free h) # memo) q = Some q'" and q: "q \<in> set rs"
        from q Cons.prems(2) obtain ys where "cells h q = Some (Stage ys)" by auto
        then have q_old: "q < next_free h" using Cons.prems(1) wf_heap_bound by blast
        show "n0 \<le> q' \<and> q' < next_free h1 \<and> cells h1 q' = cells h1 q"
        proof (cases "q = r")
          case True
          with m have "q' = next_free h" by simp
          then show ?thesis using True a(2,4,5) r_old xs Cons.prems(4) by simp
        next
          case False
          with m have "map_of memo q = Some q'" by simp
          with Cons.prems(3) q have "n0 \<le> q'" "q' < next_free h" "cells h q' = cells h q" by auto
          then show ?thesis using a(2,5) q_old by simp
        qed
      qed
      show "n0 \<le> next_free h1" using Cons.prems(4) a(2) by simp
    qed
    then obtain h' memo' rs' where rec: "copy_stages h1 ((r, next_free h) # memo) rs = Inr (h', memo', rs')"
      and wf': "wf_heap h'" and next_free': "next_free h1 \<le> next_free h'"
      and frame: "\<forall>a<next_free h1. cells h' a = cells h1 a" and len: "length rs' = length rs"
      and each: "\<forall>i<length rs. n0 \<le> rs' ! i \<and> rs' ! i < next_free h' \<and> cells h' (rs' ! i) = cells h1 (rs ! i)"
      by blast
    have res: "copy_stages h memo (r # rs) = Inr (h', memo', next_free h # rs')"
      using None xs al rec by (simp add: and_then_def)
    have frame': "\<forall>b<next_free h. cells h' b = cells h b"
      using frame a(2,5) by simp
    have olds: "\<And>i. i < length rs \<Longrightarrow> cells h1 (rs ! i) = cells h (rs ! i)"
    proof -
      fix i assume "i < length rs"
      then have "rs ! i \<in> set rs" by simp
      with Cons.prems(2) obtain ys where "cells h (rs ! i) = Some (Stage ys)" by auto
      then have "rs ! i < next_free h" using Cons.prems(1) wf_heap_bound by blast
      then show "cells h1 (rs ! i) = cells h (rs ! i)" by (rule a(5))
    qed
    have "\<forall>i<length (r # rs). n0 \<le> (next_free h # rs') ! i \<and> (next_free h # rs') ! i < next_free h' \<and>
        cells h' ((next_free h # rs') ! i) = cells h ((r # rs) ! i)"
    proof (intro allI impI)
      fix i assume i: "i < length (r # rs)"
      show "n0 \<le> (next_free h # rs') ! i \<and> (next_free h # rs') ! i < next_free h' \<and>
        cells h' ((next_free h # rs') ! i) = cells h ((r # rs) ! i)"
      proof (cases i)
        case 0
        then show ?thesis using Cons.prems(4) next_free' a(2,4) frame xs by simp
      next
        case (Suc j)
        with i each olds show ?thesis by simp
      qed
    qed
    moreover have "next_free h \<le> next_free h'" using next_free' a(2) by simp
    ultimately show ?thesis using res wf' frame' len by simp
  qed
qed

lemma deepcopy_spec:
  assumes wf: "wf_heap h"
    and a: "cells h a = Some (Structure refs)"
    and typed: "\<forall>r\<in>set refs. \<exists>xs. cells h r = Some (Stage xs)"
  shows "\<exists>h' refs'. deepcopy h a = Inr (next_free h, h') \<and> copy_of h refs h' (next_free h) refs'"
proof -
  obtain h1 where al: "alloc (Structure []) h = (next_free h, h1)"
    by (simp add: alloc_def)
  note p = alloc_props[OF wf al]
  have a_old: "a < next_free h" using wf a wf_heap_bound by blast
  have old: "\<And>r. r \<in> set refs \<Longrightarrow> r < next_free h"
    using typed wf wf_heap_bound by blast
  have "\<exists>h2 memo' refs'. copy_stages h1 [(a, next_free h)] refs = Inr (h2, memo', refs') \<and> wf_heap h2 \<and>
      next_free h1 \<le> next_free h2 \<and> (\<forall>b<next_free h1. cells h2 b = cells h1 b) \<and> length refs' = length refs \<and>
      (\<forall>i<length refs. next_free h1 \<le> refs' ! i \<and> refs' ! i < next_free h2 \<and>
          cells h2 (refs' ! i) = cells h1 (refs ! i))"
  proof (rule copy_stages_spec)
    show "wf_heap h1" by (rule p(3))
    show "\<forall>r\<in>set refs. \<exists>xs. cells h1 r = Some (Stage xs)"
      using typed old p(5) by simp
    show "\<forall>r r'. map_of [(a, next_free h)] r = Some r' \<longrightarrow> r \<in> set refs \<longrightarrow>
        next_free h1 \<le> r' \<and> r' < next_free h1 \<and> cells h1 r' = cells h1 r"
      using a typed by (auto split: if_splits)
    show "next_free h1 \<le> next_free h1" by simp
  qed
  then obtain h2 memo' refs' where cs: "copy_stages h1 [(a, next_free h)] refs = Inr (h2, memo', refs')"
    and wf2: "wf_heap h2" and lim2: "next_free h1 \<le> next_free h2"
    and frame: "\<forall>b<next_free h1. cells h2 b = cells h1 b" and len: "length refs' = length refs"
    and each: "\<forall>i<length refs. next_free h1 \<le> refs' ! i \<and> refs' ! i < next_free h2 \<and>
          cells h2 (refs' ! i) = cells h1 (refs ! i)"
    by blast
  let ?h' = "h2\<lparr>cells := (cells h2)(next_free h \<mapsto> Structure refs')\<rparr>"
  have res: "deepcopy h a = Inr (next_free h, ?h')"
    using a al cs by (simp add: deepcopy_def and_then_def)
  have wf': "wf_heap ?h'"
    using wf2 lim2 p(2) by (simp add: wf_heap_def)
  have frame': "\<forall>b<next_free h. cells ?h' b = cells h b"
    using frame p(2,5) by simp
  have each': "\<forall>i<length refs. next_free h < refs' ! i \<and> refs' ! i < next_free ?h' \<and>
      cells ?h' (refs' ! i) = cells h (refs ! i)"
  proof (intro allI impI)
    fix i assume i: "i < length refs"
    with each have e: "next_free h1 \<le> refs' ! i" "refs' ! i < next_free h2"
      "cells h2 (refs' ! i) = cells h1 (refs ! i)" by auto
    have "cells h1 (refs ! i) = cells h (refs ! i)"
      using old[of "refs ! i"] i p(5) by simp
    with e p(2) show "next_free h < refs' ! i \<and> refs' ! i < next_free ?h' \<and>
      cells ?h' (refs' ! i) = cells h (refs ! i)" by simp
  qed
  have "copy_of h refs ?h' (next_free h) refs'"
    unfolding copy_of_def using wf' frame' each' len lim2 p(2) by simp
  with res show ?thesis by blast
qed

lemma append_last_spec:
  assumes "cells h a = Some (Structure refs)" "refs \<noteq> []" "cells h (last refs) = Some (Stage xs)"
  shows "append_last h a n = Inr (h\<lparr>cells := (cells h)(last refs \<mapsto> Stage (xs @ [n]))\<rparr>)"
proof -
  have "py_index refs (- 1) = Inr (length refs - 1)"
    using assms(2) by (cases refs) (simp_all add: py_index_def Let_def)
  moreover have "refs ! (length refs - 1) = last refs"
    using assms(2) by (simp add: last_conv_nth)
  ultimately show ?thesis
    using assms by (simp add: append_last_def and_then_def)
qed

lemma those_map_Some:
  "\<forall>r\<in>set rs. f r = Some (g r) \<Longrightarrow> those (map f rs) = Some (map g rs)"
  by (induction rs) simp_all

lemma those_map_SomeD:
  "those (map f rs) = Some vs \<Longrightarrow> vs = map (\<lambda>r. the (f r)) rs \<and> (\<forall>r\<in>set rs. f r \<noteq> None)"
  by (induction rs arbitrary: vs) (auto split: option.splits)

lemma structure_valueD:
  assumes "structure_value h a = Some vs"
  obtains refs where "cells h a = Some (Structure refs)"
    and "vs = map (\<lambda>r. the (stage_value h r)) refs"
    and "\<forall>r\<in>set refs. \<exists>xs. cells h r = Some (Stage xs)"
proof -
  from assms obtain refs where c: "cells h a = Some (Structure refs)"
    and t: "those (map (stage_value h) refs) = Some vs"
    by (auto simp: structure_value_def split: option.splits obj.splits)
  from those_map_SomeD[OF t] have "vs = map (\<lambda>r. the (stage_value h r)) refs"
    and "\<forall>r\<in>set refs. stage_value h r \<noteq> None" by simp_all
  moreover have "\<forall>r\<in>set refs. \<exists>xs. cells h r = Some (Stage xs)"
  proof
    fix r assume "r \<in> set refs"
    with \<open>\<forall>r\<in>set refs. stage_value h r \<noteq> None\<close> have "stage_value h r \<noteq> None" by simp
    then show "\<exists>xs. cells h r = Some (Stage xs)"
      by (simp add: stage_value_def split: option.splits obj.splits)
  qed
  ultimately show ?thesis using c that by blast
qed

lemma structure_valueI:
  assumes "cells h a = Some (Structure refs)"
    and "\<forall>r\<in>set refs. \<exists>xs. cells h r = Some (Stage xs)"
  shows "structure_value h a = Some (map (\<lambda>r. the (stage_value h r)) refs)"
proof -
  have "\<forall>r\<in>set refs. stage_value h r = Some (the (stage_value h r))"
    using assms(2) by (auto simp: stage_value_def)
  from those_map_Some[OF this] show ?thesis
    using assms(1) by (simp add: structure_value_def)
qed

lemma copy_of_set:
  assumes "copy_of h refs h' a' refs'" "r \<in> set refs'"
  shows "a' < r" "r < next_free h'" "\<exists>i<length refs. cells h' r = cells h (refs ! i)"
proof -
  from assms(2) obtain i where "i < length refs'" "r = refs' ! i"
    by (auto simp: in_set_conv_nth)
  with assms(1) show "a' < r" "r < next_free h'" "\<exists>i<length refs. cells h' r = cells h (refs ! i)"
    unfolding copy_of_def by auto
qed

lemma copy_of_last:
  assumes "copy_of h refs h' a' refs'" "refs \<noteq> []"
  shows "refs' \<noteq> []" "cells h' (last refs') = cells h (last refs)"
proof -
  from assms have len: "length refs' = length refs" and pos: "0 < length refs"
    unfolding copy_of_def by auto
  then show ne: "refs' \<noteq> []" by auto
  have "cells h' (refs' ! (length refs - 1)) = cells h (refs ! (length refs - 1))"
    using assms(1) pos unfolding copy_of_def by simp
  then show "cells h' (last refs') = cells h (last refs)"
    using ne assms(2) len by (simp add: last_conv_nth)
qed

lemma copy_of_typed:
  assumes "copy_of h refs h' a' refs'" "\<forall>r\<in>set refs. \<exists>xs. cells h r = Some (Stage xs)"
  shows "\<forall>r\<in>set refs'. \<exists>xs. cells h' r = Some (Stage xs)"
proof
  fix r assume "r \<in> set refs'"
  from copy_of_set(3)[OF assms(1) this] obtain i where "i < length refs"
    "cells h' r = cells h (refs ! i)" by blast
  with assms(2) show "\<exists>xs. cells h' r = Some (Stage xs)" by simp
qed

lemma copy_of_values:
  assumes "copy_of h refs h' a' refs'"
  shows "map (\<lambda>r. the (stage_value h' r)) refs' = map (\<lambda>r. the (stage_value h r)) refs"
proof (rule nth_equalityI)
  show "length (map (\<lambda>r. the (stage_value h' r)) refs') = length (map (\<lambda>r. the (stage_value h r)) refs)"
    using assms unfolding copy_of_def by simp
  fix i assume "i < length (map (\<lambda>r. the (stage_value h' r)) refs')"
  then have "i < length refs" using assms unfolding copy_of_def by simp
  then show "map (\<lambda>r. the (stage_value h' r)) refs' ! i = map (\<lambda>r. the (stage_value h r)) refs ! i"
    using assms unfolding copy_of_def by (simp add: stage_value_def)
qed

lemma footprint_structure: "cells h a = Some (Structure refs) \<Longrightarrow> footprint h a = insert a (set refs)"
  by (simp add: footprint_def)

text \<open>
  Claim C9. In a well-formed store, with a configured structure of at least one stage
  (and a tutor structure of at least one stage when the tutor's configuration has one),
  the construction succeeds, and afterwards: every object of the old store, so the
  configured base structure, is unchanged; the last stage of the network's structure is
  the last configured stage followed by the class count; the last stage of the tutor's
  structure is the last stage of its source (the tutor's configured structure, or the
  base structure when there is none) followed by 1; and the two structures occupy
  disjoint, newly allocated objects, so an append to one reaches neither the other nor
  the configuration.
\<close>

theorem structures_are_independent_deep_copies:
  assumes wf: "wf_heap h"
    and base: "structure_value h base = Some vs" and vs: "vs \<noteq> []"
    and tutor: "case tutor of None \<Rightarrow> ts = vs
                | Some t \<Rightarrow> structure_value h t = Some ts \<and> ts \<noteq> []"
  shows "\<exists>net tut h'. build_structures h base tutor n = Inr (net, tut, h') \<and>
      (\<forall>a<next_free h. cells h' a = cells h a) \<and>
      structure_value h' base = Some vs \<and>
      (\<exists>nv. structure_value h' net = Some nv \<and> length nv = length vs \<and>
            last nv = last vs @ [int n]) \<and>
      (\<exists>tv. structure_value h' tut = Some tv \<and> length tv = length ts \<and>
            last tv = last ts @ [1]) \<and>
      footprint h' net \<inter> footprint h' tut = {} \<and>
      (\<forall>a\<in>footprint h' net \<union> footprint h' tut. next_free h \<le> a)"
proof -
  \<comment> \<open>the configured structure\<close>
  from base obtain refs_b where cb: "cells h base = Some (Structure refs_b)"
    and vb: "vs = map (\<lambda>r. the (stage_value h r)) refs_b"
    and tb: "\<forall>r\<in>set refs_b. \<exists>xs. cells h r = Some (Stage xs)"
    by (rule structure_valueD)
  from vb vs have neb: "refs_b \<noteq> []" by auto
  \<comment> \<open>the copy for the network\<close>
  from deepcopy_spec[OF wf cb tb] obtain h1 refs_n where
    d1: "deepcopy h base = Inr (next_free h, h1)" and c1: "copy_of h refs_b h1 (next_free h) refs_n"
    by blast
  let ?net = "next_free h"
  from c1 have wf1: "wf_heap h1" and lt1: "?net < next_free h1"
    and fr1: "\<And>b. b < next_free h \<Longrightarrow> cells h1 b = cells h b"
    and cn1: "cells h1 ?net = Some (Structure refs_n)"
    unfolding copy_of_def by auto
  note tn1 = copy_of_typed[OF c1 tb]
  note nen = copy_of_last(1)[OF c1 neb]
  have vn1: "map (\<lambda>r. the (stage_value h1 r)) refs_n = vs"
    using copy_of_values[OF c1] vb by simp
  \<comment> \<open>the source of the tutor's copy, in the store after the first copy\<close>
  have "\<exists>src refs_s. (case tutor of Some t \<Rightarrow> deepcopy h1 t | None \<Rightarrow> deepcopy h1 ?net) = deepcopy h1 src
      \<and> cells h1 src = Some (Structure refs_s) \<and> refs_s \<noteq> []
      \<and> (\<forall>r\<in>set refs_s. \<exists>xs. cells h1 r = Some (Stage xs))
      \<and> map (\<lambda>r. the (stage_value h1 r)) refs_s = ts"
  proof (cases tutor)
    case None
    with tutor have "ts = vs" by simp
    with None cn1 nen tn1 vn1 show ?thesis by auto
  next
    case (Some t)
    with tutor have tv: "structure_value h t = Some ts" and tne: "ts \<noteq> []" by simp_all
    from tv obtain refs_t0 where ct: "cells h t = Some (Structure refs_t0)"
      and vt: "ts = map (\<lambda>r. the (stage_value h r)) refs_t0"
      and tt: "\<forall>r\<in>set refs_t0. \<exists>xs. cells h r = Some (Stage xs)"
      by (rule structure_valueD)
    have t_old: "t < next_free h" using wf ct wf_heap_bound by blast
    have r_old: "\<And>r. r \<in> set refs_t0 \<Longrightarrow> r < next_free h"
      using wf tt wf_heap_bound by blast
    have "cells h1 t = Some (Structure refs_t0)" using ct fr1[OF t_old] by simp
    moreover have "refs_t0 \<noteq> []" using vt tne by auto
    moreover have "\<forall>r\<in>set refs_t0. \<exists>xs. cells h1 r = Some (Stage xs)"
      using tt r_old fr1 by simp
    moreover have "map (\<lambda>r. the (stage_value h1 r)) refs_t0 = ts"
      unfolding vt using r_old fr1 by (simp add: stage_value_def)
    ultimately show ?thesis using Some by auto
  qed
  then obtain src refs_s where
    src: "(case tutor of Some t \<Rightarrow> deepcopy h1 t | None \<Rightarrow> deepcopy h1 ?net) = deepcopy h1 src"
    and cs: "cells h1 src = Some (Structure refs_s)" and nes: "refs_s \<noteq> []"
    and tys: "\<forall>r\<in>set refs_s. \<exists>xs. cells h1 r = Some (Stage xs)"
    and vals: "map (\<lambda>r. the (stage_value h1 r)) refs_s = ts"
    by blast
  \<comment> \<open>the copy for the tutor\<close>
  from deepcopy_spec[OF wf1 cs tys] obtain h2 refs_t where
    d2: "deepcopy h1 src = Inr (next_free h1, h2)" and c2: "copy_of h1 refs_s h2 (next_free h1) refs_t"
    by blast
  let ?tut = "next_free h1"
  from c2 have fr2: "\<And>b. b < next_free h1 \<Longrightarrow> cells h2 b = cells h1 b"
    and ct2: "cells h2 ?tut = Some (Structure refs_t)"
    unfolding copy_of_def by auto
  note tt2 = copy_of_typed[OF c2 tys]
  note net = copy_of_last(1)[OF c2 nes]
  have vt2: "map (\<lambda>r. the (stage_value h2 r)) refs_t = ts"
    using copy_of_values[OF c2] vals by simp
  \<comment> \<open>where the stages of the two copies live\<close>
  have rn: "\<And>r. r \<in> set refs_n \<Longrightarrow> ?net < r \<and> r < ?tut"
    using copy_of_set(1,2)[OF c1] by blast
  have rt: "\<And>r. r \<in> set refs_t \<Longrightarrow> ?tut < r"
    using copy_of_set(1)[OF c2] by blast
  have ln: "last refs_n \<in> set refs_n" using nen by simp
  have lt: "last refs_t \<in> set refs_t" using net by simp
  \<comment> \<open>the two appends\<close>
  have cn2: "cells h2 ?net = Some (Structure refs_n)" using cn1 fr2[OF lt1] by simp
  have "cells h2 (last refs_n) = cells h (last refs_b)"
    using copy_of_last(2)[OF c1 neb] fr2 rn[OF ln] by simp
  moreover have "cells h (last refs_b) = Some (Stage (last vs))"
  proof -
    have "last refs_b \<in> set refs_b" using neb by simp
    with tb obtain xs where "cells h (last refs_b) = Some (Stage xs)" by blast
    then show ?thesis unfolding vb using neb by (simp add: last_map stage_value_def)
  qed
  ultimately have sn: "cells h2 (last refs_n) = Some (Stage (last vs))" by simp
  define h3 where "h3 = h2\<lparr>cells := (cells h2)(last refs_n \<mapsto> Stage (last vs @ [int n]))\<rparr>"
  have a1: "append_last h2 ?net (int n) = Inr h3"
    unfolding h3_def by (rule append_last_spec[OF cn2 nen sn])
  have ne_nt: "last refs_n \<noteq> ?tut" "last refs_n \<noteq> last refs_t"
    using rn[OF ln] rt[OF lt] by auto
  have ct3: "cells h3 ?tut = Some (Structure refs_t)"
    using ct2 ne_nt by (simp add: h3_def)
  have "cells h2 (last refs_t) = cells h1 (last refs_s)"
    by (rule copy_of_last(2)[OF c2 nes])
  moreover have "cells h1 (last refs_s) = Some (Stage (last ts))"
  proof -
    have "last refs_s \<in> set refs_s" using nes by simp
    with tys obtain xs where "cells h1 (last refs_s) = Some (Stage xs)" by blast
    then show ?thesis unfolding vals[symmetric] using nes by (simp add: last_map stage_value_def)
  qed
  ultimately have st: "cells h3 (last refs_t) = Some (Stage (last ts))"
    using ne_nt by (simp add: h3_def)
  define h4 where "h4 = h3\<lparr>cells := (cells h3)(last refs_t \<mapsto> Stage (last ts @ [1]))\<rparr>"
  have a2: "append_last h3 ?tut 1 = Inr h4"
    unfolding h4_def by (rule append_last_spec[OF ct3 net st])
  have res: "build_structures h base tutor n = Inr (?net, ?tut, h4)"
    unfolding build_structures_def by (simp add: d1 src d2 a1 a2 and_then_def)
  have c4: "cells h4 a =
      (if a = last refs_t then Some (Stage (last ts @ [1]))
       else if a = last refs_n then Some (Stage (last vs @ [int n]))
       else cells h2 a)" for a
    by (simp add: h4_def h3_def)
  \<comment> \<open>what was in the store before is unchanged\<close>
  have frame: "cells h4 a = cells h a" if "a < next_free h" for a
  proof -
    have "a \<noteq> last refs_n" "a \<noteq> last refs_t" using that rn[OF ln] rt[OF lt] lt1 by auto
    moreover have "cells h2 a = cells h a" using that fr1 fr2 lt1 by simp
    ultimately show ?thesis by (simp add: c4)
  qed
  have base_old: "base < next_free h" using wf cb wf_heap_bound by blast
  have refs_old: "\<And>r. r \<in> set refs_b \<Longrightarrow> r < next_free h" using wf tb wf_heap_bound by blast
  have cb4: "cells h4 base = Some (Structure refs_b)" using frame[OF base_old] cb by simp
  have tb4: "\<forall>r\<in>set refs_b. \<exists>xs. cells h4 r = Some (Stage xs)"
    using tb frame refs_old by simp
  have "structure_value h4 base = Some (map (\<lambda>r. the (stage_value h4 r)) refs_b)"
    by (rule structure_valueI[OF cb4 tb4])
  also have "map (\<lambda>r. the (stage_value h4 r)) refs_b = vs"
    unfolding vb by (rule map_cong) (simp_all add: stage_value_def frame refs_old)
  finally have base': "structure_value h4 base = Some vs" .
  \<comment> \<open>the network's structure\<close>
  have "?net \<noteq> last refs_n" "?net \<noteq> last refs_t"
    using rn[OF ln] rt[OF lt] lt1 by auto
  then have cn4: "cells h4 ?net = Some (Structure refs_n)"
    using cn2 by (simp add: c4)
  have tn4: "\<forall>r\<in>set refs_n. \<exists>xs. cells h4 r = Some (Stage xs)"
  proof
    fix r assume r: "r \<in> set refs_n"
    have "\<exists>xs. cells h2 r = Some (Stage xs)" using tn1 r fr2 rn[OF r] by simp
    then show "\<exists>xs. cells h4 r = Some (Stage xs)" by (simp add: c4)
  qed
  have nv: "structure_value h4 ?net = Some (map (\<lambda>r. the (stage_value h4 r)) refs_n)"
    by (rule structure_valueI[OF cn4 tn4])
  have lenn: "length (map (\<lambda>r. the (stage_value h4 r)) refs_n) = length vs"
    using c1 vb unfolding copy_of_def by simp
  have "stage_value h4 (last refs_n) = Some (last vs @ [int n])"
    using ne_nt by (simp add: stage_value_def c4)
  then have lastn: "last (map (\<lambda>r. the (stage_value h4 r)) refs_n) = last vs @ [int n]"
    using nen by (simp add: last_map)
  \<comment> \<open>the tutor's structure\<close>
  have "?tut \<noteq> last refs_n" "?tut \<noteq> last refs_t"
    using rn[OF ln] rt[OF lt] by auto
  then have ct4: "cells h4 ?tut = Some (Structure refs_t)"
    using ct2 by (simp add: c4)
  have tt4: "\<forall>r\<in>set refs_t. \<exists>xs. cells h4 r = Some (Stage xs)"
  proof
    fix r assume r: "r \<in> set refs_t"
    have "\<exists>xs. cells h2 r = Some (Stage xs)" using tt2 r by simp
    then show "\<exists>xs. cells h4 r = Some (Stage xs)" by (simp add: c4)
  qed
  have tv: "structure_value h4 ?tut = Some (map (\<lambda>r. the (stage_value h4 r)) refs_t)"
    by (rule structure_valueI[OF ct4 tt4])
  have lent: "length (map (\<lambda>r. the (stage_value h4 r)) refs_t) = length ts"
    using c2 vals unfolding copy_of_def by auto
  have "stage_value h4 (last refs_t) = Some (last ts @ [1])"
    by (simp add: stage_value_def c4)
  then have lastt: "last (map (\<lambda>r. the (stage_value h4 r)) refs_t) = last ts @ [1]"
    using net by (simp add: last_map)
  \<comment> \<open>the two structures share no object, with each other or with the old store\<close>
  have fn: "footprint h4 ?net = insert ?net (set refs_n)"
    by (rule footprint_structure[OF cn4])
  have ft: "footprint h4 ?tut = insert ?tut (set refs_t)"
    by (rule footprint_structure[OF ct4])
  have disj: "footprint h4 ?net \<inter> footprint h4 ?tut = {}"
    unfolding fn ft using rn rt lt1 by fastforce
  have fresh: "\<forall>a\<in>footprint h4 ?net \<union> footprint h4 ?tut. next_free h \<le> a"
    unfolding fn ft using rn rt lt1 by fastforce
  show ?thesis
    using res frame base' nv lenn lastn tv lent lastt disj fresh by blast
qed

lemma ex_heap_wf: "wf_heap ex_heap"
  by (simp add: wf_heap_def ex_heap_def)

lemma ex_heap_value: "structure_value ex_heap 2 = Some [[4], [8, 8]]"
  by (simp add: structure_value_def stage_value_def ex_heap_def)

theorem structures_are_independent_deep_copies_witness:
  "wf_heap ex_heap \<and> structure_value ex_heap 2 = Some [[4], [8, 8]] \<and>
   (\<exists>net tut h'. build_structures ex_heap 2 None 3 = Inr (net, tut, h') \<and>
      structure_value h' 2 = Some [[4], [8, 8]] \<and>
      (\<exists>nv. structure_value h' net = Some nv \<and> length nv = 2 \<and> last nv = [8, 8, 3]) \<and>
      (\<exists>tv. structure_value h' tut = Some tv \<and> length tv = 2 \<and> last tv = [8, 8, 1]) \<and>
      footprint h' net \<inter> footprint h' tut = {})"
proof -
  have ne: "[[4], [8, 8 :: int]] \<noteq> []" by simp
  have t: "case None :: addr option of None \<Rightarrow> [[4], [8, 8 :: int]] = [[4], [8, 8]]
           | Some t \<Rightarrow> structure_value ex_heap t = Some [[4], [8, 8]] \<and> [[4], [8, 8 :: int]] \<noteq> []"
    by simp
  from structures_are_independent_deep_copies [OF ex_heap_wf ex_heap_value ne t, of 3]
  obtain net tut h' where "build_structures ex_heap 2 None 3 = Inr (net, tut, h')"
    "structure_value h' 2 = Some [[4], [8, 8]]"
    "\<exists>nv. structure_value h' net = Some nv \<and> length nv = length [[4], [8, 8 :: int]] \<and>
        last nv = last [[4], [8, 8]] @ [int 3]"
    "\<exists>tv. structure_value h' tut = Some tv \<and> length tv = length [[4], [8, 8 :: int]] \<and>
        last tv = last [[4], [8, 8]] @ [1]"
    "footprint h' net \<inter> footprint h' tut = {}"
    by blast
  then show ?thesis
    using ex_heap_wf ex_heap_value by auto
qed

end
